theory Spec2Isabelle
  imports Complex_Main
begin

section \<open>Values of the JavaScript runtime\<close>

text \<open>
  A JavaScript string is a sequence of UTF-16 code units; a code unit is modelled by its
  number. \<open>js\<close> embeds an ASCII literal of the source.

\<close>

type_synonym jsstring = "nat list"

definition js :: "string \<Rightarrow> jsstring" where
  "js s = map of_char s"

subsection \<open>Numbers\<close>

text \<open>
  A JavaScript number is an IEEE 754 double: \<open>NaN\<close>, an infinity, or a finite double,
  which is modelled by the rational number it denotes. The model does not tell \<open>-0\<close>
  from \<open>0\<close>: the source compares numbers, subtracts them, and divides them by 60, by
  1000 and by a number it has tested to be above 0, and there the two zeros behave alike.
\<close>

datatype jsnum = NaN | PInf | NInf | Fin rat

text \<open>
  The finite double with significand \<open>m\<close> and exponent \<open>e\<close>, for writing down a
  double that is no integer.
\<close>

definition dyadic :: "int \<Rightarrow> int \<Rightarrow> rat" where
  "dyadic m e = of_int m * 2 powi e"

text \<open>
  Rounding to the nearest double, a tie going to the even significand. \<open>ilog2 a\<close> is
  the exponent \<open>k\<close> with \<open>2 ^ k \<le> a < 2 ^ (k + 1)\<close>; the last place of a double
  of that size is \<open>2 ^ (k - 52)\<close>, and \<open>2 ^ -1074\<close> for the subnormal ones; a result
  from \<open>2 ^ 1024\<close> on is an infinity.
\<close>

fun ilog2_nat :: "nat \<Rightarrow> nat" where
  "ilog2_nat n = (if n < 2 then 0 else Suc (ilog2_nat (n div 2)))"

declare ilog2_nat.simps [simp del]

definition ilog2 :: "rat \<Rightarrow> int" where
  "ilog2 a =
     (if a \<ge> 1 then int (ilog2_nat (nat \<lfloor>a\<rfloor>))
      else (let j = ilog2_nat (nat \<lfloor>1 / a\<rfloor>)
            in if a * 2 ^ j = 1 then - int j else - int j - 1))"

definition round_half_even :: "rat \<Rightarrow> int" where
  "round_half_even q =
     (let f = \<lfloor>q\<rfloor>; d = q - of_int f
      in if d < 1 / 2 then f else if d > 1 / 2 then f + 1 else if even f then f else f + 1)"

definition rnd :: "rat \<Rightarrow> jsnum" where
  "rnd x =
     (if x = 0 then Fin 0
      else
        (let a = \<bar>x\<bar>;
             e = max (ilog2 a - 52) (- 1074);
             v = of_int (round_half_even (a / 2 powi e)) * 2 powi e
         in if v \<ge> 2 powi 1024 then (if x > 0 then PInf else NInf)
            else Fin (if x > 0 then v else - v)))"

text \<open>\<open>x - y\<close> and \<open>x / y\<close>: the exact result, rounded.\<close>

fun num_sub :: "jsnum \<Rightarrow> jsnum \<Rightarrow> jsnum" where
  "num_sub (Fin a) (Fin b) = rnd (a - b)"
| "num_sub (Fin a) PInf = NInf"
| "num_sub (Fin a) NInf = PInf"
| "num_sub PInf (Fin b) = PInf"
| "num_sub PInf NInf = PInf"
| "num_sub NInf (Fin b) = NInf"
| "num_sub NInf PInf = NInf"
| "num_sub x y = NaN"

fun num_div :: "jsnum \<Rightarrow> jsnum \<Rightarrow> jsnum" where
  "num_div (Fin a) (Fin b) =
     (if b = 0 then (if a = 0 then NaN else if a > 0 then PInf else NInf) else rnd (a / b))"
| "num_div (Fin a) PInf = Fin 0"
| "num_div (Fin a) NInf = Fin 0"
| "num_div PInf (Fin b) = (if b \<ge> 0 then PInf else NInf)"
| "num_div NInf (Fin b) = (if b \<ge> 0 then NInf else PInf)"
| "num_div x y = NaN"

text \<open>\<open>x > c\<close> and \<open>x < c\<close> for a finite \<open>c\<close>: false when \<open>x\<close> is \<open>NaN\<close>.\<close>

fun num_gt :: "jsnum \<Rightarrow> rat \<Rightarrow> bool" where
  "num_gt (Fin a) c = (a > c)"
| "num_gt PInf c = True"
| "num_gt x c = False"

fun num_lt :: "jsnum \<Rightarrow> rat \<Rightarrow> bool" where
  "num_lt (Fin a) c = (a < c)"
| "num_lt NInf c = True"
| "num_lt x c = False"

text \<open>
  \<open>Math.round\<close>: the nearest integer, a tie going up; an infinity and \<open>NaN\<close> are
  returned as they are.
\<close>

fun Math_round :: "jsnum \<Rightarrow> jsnum" where
  "Math_round (Fin q) = Fin (of_int \<lfloor>q + 1 / 2\<rfloor>)"
| "Math_round x = x"

subsection \<open>Values\<close>

text \<open>The values a parsed JSON payload can hold, and \<open>undefined\<close> for what is absent.\<close>

datatype jsval =
    JUndefined
  | JNull
  | JBool bool
  | JNum jsnum
  | JStr jsstring
  | JArr "jsval list"
  | JObj "(jsstring \<times> jsval) list"

text \<open>
  \<open>v?.k\<close> for the keys \<open>start\<close> and \<open>end\<close>: the property of an object, and
  \<open>undefined\<close> on \<open>null\<close>, on \<open>undefined\<close> and on every value that has no such
  property (no built-in prototype defines \<open>start\<close> or \<open>end\<close>).
\<close>

fun optional_member :: "jsval \<Rightarrow> jsstring \<Rightarrow> jsval" where
  "optional_member (JObj kvs) k = (case map_of kvs k of Some v \<Rightarrow> v | None \<Rightarrow> JUndefined)"
| "optional_member v k = JUndefined"

text \<open>\<open>typeof v === 'number' ? v : null\<close>\<close>

fun number_or_null :: "jsval \<Rightarrow> jsnum option" where
  "number_or_null (JNum r) = Some r"
| "number_or_null v = None"

text \<open>The decimal digits of a count, as a template literal prints it.\<close>

function digits :: "nat \<Rightarrow> jsstring" where
  "digits n = (if n < 10 then [48 + n] else digits (n div 10) @ [48 + n mod 10])"
  by pat_completeness auto
termination
  by (relation "measure (\<lambda>n. n)") auto

declare digits.simps [simp del]

section \<open>The analysis of a completed transcript (src/server/index.js, step 4)\<close>

subsection \<open>Word count and words per minute\<close>

text \<open>
  The class \<open>\s\<close> of an ECMAScript regular expression: the white space and line
  terminator code units.
\<close>

definition isSpace :: "nat \<Rightarrow> bool" where
  "isSpace c = (c = 9 \<or> c = 10 \<or> c = 11 \<or> c = 12 \<or> c = 13 \<or> c = 32 \<or> c = 160
     \<or> c = 5760 \<or> (8192 \<le> c \<and> c \<le> 8202) \<or> c = 8232 \<or> c = 8233 \<or> c = 8239
     \<or> c = 8287 \<or> c = 12288 \<or> c = 65279)"

text \<open>
  \<open>text.split(/\s+/)\<close>: the pieces of the text between the maximal runs of white
  space. \<open>cur\<close> is the piece being read. A separator at either end of the text leaves
  an empty piece there, and the empty text is one empty piece.
\<close>

function split_ws :: "jsstring \<Rightarrow> jsstring \<Rightarrow> jsstring list" where
  "split_ws cur [] = [cur]"
| "split_ws cur (c # cs) =
     (if isSpace c then cur # split_ws [] (dropWhile isSpace cs)
      else split_ws (cur @ [c]) cs)"
  by pat_completeness auto
termination
  by (relation "measure (\<lambda>(cur, s). length s)")
     (auto simp: length_dropWhile_le less_Suc_eq_le)

definition wordCount :: "jsstring \<Rightarrow> nat" where
  "wordCount transcriptText =
     length (filter (\<lambda>word. length word > 0) (split_ws [] transcriptText))"

text \<open>
  \<open>audio_duration\<close> is the number that the division makes of the field of the
  payload: \<open>NaN\<close> when the field is absent. The word count, the length of an array, is
  a double as it is.
\<close>

definition wordsPerMinute :: "jsstring \<Rightarrow> jsnum \<Rightarrow> jsnum" where
  "wordsPerMinute transcriptText audio_duration =
     (let audioDuration = num_div audio_duration (Fin 60)
      in if num_gt audioDuration 0
         then Math_round (num_div (Fin (of_nat (wordCount transcriptText))) audioDuration)
         else Fin 0)"

subsection \<open>Pacing suggestion\<close>

definition pacingSuggestion :: "int \<Rightarrow> jsstring" where
  "pacingSuggestion wpm =
     (if wpm > 160 then
        js ''Your pace is quite fast. Try speaking a bit more slowly to ensure your audience can follow along.''
      else if wpm < 130 then
        js ''Your pace is a little slow. Try speaking a bit faster to keep your audience engaged.''
      else
        js ''Your pacing is excellent! It's right in the ideal range for presentations.'')"

text \<open>
  The same tests on any number, as the handler applies them to \<open>wordsPerMinute\<close>,
  which can be \<open>Infinity\<close>.
\<close>

definition pacingSuggestion_for :: "jsnum \<Rightarrow> jsstring" where
  "pacingSuggestion_for wpm =
     (if num_gt wpm 160 then
        js ''Your pace is quite fast. Try speaking a bit more slowly to ensure your audience can follow along.''
      else if num_lt wpm 130 then
        js ''Your pace is a little slow. Try speaking a bit faster to keep your audience engaged.''
      else
        js ''Your pacing is excellent! It's right in the ideal range for presentations.'')"

subsection \<open>Long pauses\<close>

text \<open>The body of the loop for one adjacent pair: whether it adds to the count.\<close>

definition is_long_pause :: "jsval \<Rightarrow> jsval \<Rightarrow> bool" where
  "is_long_pause previousWord currentWord =
     (let prevEnd = number_or_null (optional_member previousWord (js ''end''));
          currStart = number_or_null (optional_member currentWord (js ''start''))
      in case prevEnd of
           None \<Rightarrow> False
         | Some e \<Rightarrow>
             (case currStart of
                None \<Rightarrow> False
              | Some s \<Rightarrow>
                  (let diff = num_sub s e;
                       pauseSeconds = (if num_gt diff 100 then num_div diff (Fin 1000) else diff)
                   in num_gt pauseSeconds 2)))"

function long_pause_loop :: "jsval list \<Rightarrow> nat \<Rightarrow> nat \<Rightarrow> nat" where
  "long_pause_loop wordsWithTimestamps i count =
     (if i < length wordsWithTimestamps then
        long_pause_loop wordsWithTimestamps (i + 1)
          (if is_long_pause (wordsWithTimestamps ! (i - 1)) (wordsWithTimestamps ! i)
           then count + 1 else count)
      else count)"
  by pat_completeness auto
termination
  by (relation "measure (\<lambda>(ws, i, count). length ws - i)") auto

declare long_pause_loop.simps [simp del]

text \<open>\<open>Array.isArray(words) ? words : []\<close>, then the loop from index 1.\<close>

definition longPauseCount :: "jsval \<Rightarrow> nat" where
  "longPauseCount words =
     (let wordsWithTimestamps = (case words of JArr ws \<Rightarrow> ws | _ \<Rightarrow> [])
      in long_pause_loop wordsWithTimestamps 1 0)"

subsection \<open>Pause and filler suggestion\<close>

definition pauseSuggestion :: "nat \<Rightarrow> nat \<Rightarrow> jsstring" where
  "pauseSuggestion longPauses fillers =
     (if longPauses > 3 then
        js ''You paused for over 2 seconds '' @ digits longPauses
          @ js '' times. Try to make your transitions between sentences smoother.''
      else if fillers > 5 then
        js ''You used '' @ digits fillers
          @ js '' filler words. Practice your speech to reduce reliance on words like 'um' and 'like'.''
      else
        js ''Great job on maintaining a smooth flow with minimal long pauses!'')"

subsection \<open>Filler words\<close>

definition fillerWordsList :: "jsstring list" where
  "fillerWordsList =
     [js ''um'', js ''uh'', js ''like'', js ''so'', js ''you know'', js ''actually'',
      js ''basically'', js ''ahh'', js ''ummmm'', js ''uhhhh'']"

text \<open>
  Each entry becomes the regular expression \<open>\b<filler>\b\<close> with the flags \<open>g\<close>
  and \<open>i\<close>. The entries are made of letters and spaces, so every character of an
  entry is a literal of the pattern.

  \<open>isWordChar\<close> is the class \<open>\w\<close>. \<open>canonicalize\<close> is the case folding of the
  flag \<open>i\<close> (without \<open>u\<close>): the upper case of the code unit, where a code unit from
  128 on is never folded to one below 128. The patterns hold ASCII only, so the model
  folds the ASCII letters and leaves every other code unit as it is.
\<close>

definition isWordChar :: "nat \<Rightarrow> bool" where
  "isWordChar c = ((48 \<le> c \<and> c \<le> 57) \<or> (65 \<le> c \<and> c \<le> 90) \<or> c = 95 \<or> (97 \<le> c \<and> c \<le> 122))"

definition canonicalize :: "nat \<Rightarrow> nat" where
  "canonicalize c = (if 97 \<le> c \<and> c \<le> 122 then c - 32 else c)"

text \<open>
  The assertion \<open>\b\<close> at index \<open>e\<close>: exactly one of the code units at \<open>e - 1\<close> and
  at \<open>e\<close> is a word character, where an index outside the text holds none.
\<close>

definition wordCharBefore :: "jsstring \<Rightarrow> nat \<Rightarrow> bool" where
  "wordCharBefore t e = (0 < e \<and> e - 1 < length t \<and> isWordChar (t ! (e - 1)))"

definition wordCharAt :: "jsstring \<Rightarrow> nat \<Rightarrow> bool" where
  "wordCharAt t e = (e < length t \<and> isWordChar (t ! e))"

definition boundary :: "jsstring \<Rightarrow> nat \<Rightarrow> bool" where
  "boundary t e = (wordCharBefore t e \<noteq> wordCharAt t e)"

text \<open>The pattern matches the text from index \<open>i\<close> on.\<close>

definition match_at :: "jsstring \<Rightarrow> jsstring \<Rightarrow> nat \<Rightarrow> bool" where
  "match_at filler t i =
     (boundary t i \<and> i + length filler \<le> length t
      \<and> map canonicalize (take (length filler) (drop i t)) = map canonicalize filler
      \<and> boundary t (i + length filler))"

text \<open>
  One execution of the regular expression from \<open>lastIndex\<close>: the first index from there
  on at which the pattern matches; the result is the index after the match, the next
  \<open>lastIndex\<close>.
\<close>

function regex_exec :: "jsstring \<Rightarrow> jsstring \<Rightarrow> nat \<Rightarrow> nat option" where
  "regex_exec filler t lastIndex =
     (if lastIndex > length t then None
      else if match_at filler t lastIndex then Some (lastIndex + length filler)
      else regex_exec filler t (lastIndex + 1))"
  by pat_completeness auto
termination
  by (relation "measure (\<lambda>(filler, t, lastIndex). Suc (length t) - lastIndex)") auto

declare regex_exec.simps [simp del]

text \<open>
  \<open>text.match(regex)\<close> with the flag \<open>g\<close>: the executions are repeated, each from
  where the last match ended (one further after an empty match), until one fails; the
  value is the number of matches (\<open>matches ? matches.length : 0\<close>).
\<close>

function match_count :: "jsstring \<Rightarrow> jsstring \<Rightarrow> nat \<Rightarrow> nat" where
  "match_count filler t lastIndex =
     (case regex_exec filler t lastIndex of
        None \<Rightarrow> 0
      | Some e \<Rightarrow> Suc (match_count filler t (if length filler = 0 then e + 1 else e)))"
  by pat_completeness auto
termination
proof (relation "measure (\<lambda>(filler, t, lastIndex). Suc (length t) - lastIndex)")
  show "wf (measure (\<lambda>(filler, t, lastIndex). Suc (length t) - lastIndex))"
    by simp
next
  fix filler t :: jsstring and lastIndex e :: nat
  assume found: "regex_exec filler t lastIndex = Some e"
  have "regex_exec filler t i = Some e \<Longrightarrow> i + length filler \<le> e \<and> e \<le> length t" for i
  proof (induction filler t i rule: regex_exec.induct)
    case (1 filler t lastIndex)
    then show ?case
      by (subst (asm) (2) regex_exec.simps) (auto simp: match_at_def split: if_splits)
  qed
  with found have "lastIndex + length filler \<le> e" and "e \<le> length t"
    by blast+
  then show "((filler, t, if length filler = 0 then e + 1 else e), (filler, t, lastIndex))
      \<in> measure (\<lambda>(filler, t, lastIndex). Suc (length t) - lastIndex)"
    by (cases filler) auto
qed

declare match_count.simps [simp del]

definition fillerWordCount :: "jsstring \<Rightarrow> nat" where
  "fillerWordCount transcriptText =
     foldl (\<lambda>count filler. count + match_count filler transcriptText 0) 0 fillerWordsList"

subsection \<open>The whole analysis\<close>

text \<open>
  The payload of a poll, \<open>pollResponse.data\<close>, as the handler reads it: the fields
  \<open>status\<close>, \<open>text\<close> and \<open>words\<close> as they are, \<open>audio_duration\<close> as the number
  the division makes of it (\<open>NaN\<close> when absent) and \<open>error\<close> as the string the
  template literal makes of it.
\<close>

record transcriptData =
  td_status :: jsval
  td_text :: jsval
  td_audio_duration :: jsnum
  td_words :: jsval
  td_error :: jsstring

text \<open>A thrown error: \<open>error.message\<close> and \<open>error.response?.status\<close>.\<close>

record exc =
  message :: jsstring
  response_status :: "nat option"

text \<open>What step 4 computes, every local of it.\<close>

record analysis =
  transcript :: jsstring
  word_count :: nat
  words_per_minute :: jsnum
  filler_word_count :: nat
  long_pause_count :: nat
  pacing :: jsstring
  pauses :: jsstring

text \<open>The truth of a value, which \<open>||\<close> tests.\<close>

fun truthy :: "jsval \<Rightarrow> bool" where
  "truthy JUndefined = False"
| "truthy JNull = False"
| "truthy (JBool b) = b"
| "truthy (JNum d) = (d \<noteq> Fin 0 \<and> d \<noteq> NaN)"
| "truthy (JStr s) = (s \<noteq> [])"
| "truthy (JArr vs) = True"
| "truthy (JObj kvs) = True"

text \<open>
  \<open>transcriptData.text || ''\<close>, then the metrics. Only a string has a method
  \<open>split\<close>: on any other value that passes \<open>||\<close> the call raises a TypeError.
\<close>

definition analyze :: "transcriptData \<Rightarrow> exc + analysis" where
  "analyze td =
     (let transcriptText = (if truthy (td_text td) then td_text td else JStr [])
      in case transcriptText of
           JStr s \<Rightarrow>
             (let wpm = wordsPerMinute s (td_audio_duration td);
                  fillers = fillerWordCount s;
                  longPauses = longPauseCount (td_words td)
              in Inr \<lparr>transcript = s, word_count = wordCount s, words_per_minute = wpm,
                      filler_word_count = fillers, long_pause_count = longPauses,
                      pacing = pacingSuggestion_for wpm,
                      pauses = pauseSuggestion longPauses fillers\<rparr>)
         | _ \<Rightarrow>
             Inl \<lparr>message = js ''transcriptText.split is not a function'',
                  response_status = None\<rparr>)"

section \<open>The request handler (POST /api/analyze)\<close>

type_synonym path = jsstring
type_synonym bytes = "nat list"

text \<open>
  What the handler does to the world, in order: the file it reads, the requests it
  sends to the transcription provider, the file it unlinks. Logging and the wait of
  three seconds between two polls are left out.
\<close>

datatype effect =
    ReadFileSync path
  | PostUpload bytes
  | PostTranscript jsval
  | GetTranscript jsval
  | UnlinkSync path

fun provider_call :: "effect \<Rightarrow> bool" where
  "provider_call (PostUpload b) = True"
| "provider_call (PostTranscript u) = True"
| "provider_call (GetTranscript i) = True"
| "provider_call e = False"

text \<open>
  What the world answers. \<open>files\<close> is the file system when the request arrives.
  \<open>upload_result\<close> is \<open>uploadResponse.data.upload_url\<close>, \<open>transcript_result\<close> is
  \<open>transcriptResponse.data.id\<close> and \<open>poll_result n\<close> is the payload of poll number
  \<open>n\<close> (from 0); each is \<open>Inl\<close> the error when the request or the reading of its
  answer throws. \<open>unlink_error\<close> is what \<open>fs.unlinkSync\<close> throws, if it does.
  \<open>NODE_ENV\<close> is \<open>process.env.NODE_ENV\<close>.
\<close>

record env =
  files :: "path \<Rightarrow> bytes option"
  upload_result :: "exc + jsval"
  transcript_result :: "exc + jsval"
  poll_result :: "nat \<Rightarrow> exc + transcriptData"
  unlink_error :: "exc option"
  NODE_ENV :: "jsstring option"

datatype body =
    ErrorBody jsstring "jsstring option"
  | AnalysisBody jsstring jsstring jsnum nat jsstring jsstring

record response =
  status_code :: nat
  body :: body

record outcome =
  response :: response
  effects :: "effect list"
  files_after :: "path \<Rightarrow> bytes option"

definition maxPolls :: nat where
  "maxPolls = 20"

text \<open>
  The poll loop, from the values \<open>pollCount\<close> and \<open>transcriptData\<close> have on entry to
  the values they have when the loop is left, or the error thrown inside it.
\<close>

function poll_loop ::
  "env \<Rightarrow> jsval \<Rightarrow> nat \<Rightarrow> transcriptData option \<Rightarrow> effect list
    \<Rightarrow> (exc + nat \<times> transcriptData option) \<times> effect list" where
  "poll_loop env transcriptId pollCount transcriptData es =
     (if pollCount < maxPolls then
        (case poll_result env pollCount of
           Inl e \<Rightarrow> (Inl e, es @ [GetTranscript transcriptId])
         | Inr td \<Rightarrow>
             if td_status td = JStr (js ''completed'') then
               (Inr (pollCount, Some td), es @ [GetTranscript transcriptId])
             else if td_status td = JStr (js ''error'') then
               (Inl \<lparr>message = js ''Transcription failed: '' @ td_error td,
                     response_status = None\<rparr>,
                es @ [GetTranscript transcriptId])
             else
               poll_loop env transcriptId (pollCount + 1) (Some td)
                 (es @ [GetTranscript transcriptId]))
      else (Inr (pollCount, transcriptData), es))"
  by pat_completeness auto
termination
  by (relation "measure (\<lambda>(env, transcriptId, pollCount, transcriptData, es). maxPolls - pollCount)")
     auto

declare poll_loop.simps [simp del]

definition timed_out :: exc where
  "timed_out = \<lparr>message = js ''Transcription timed out after 60 seconds'', response_status = None\<rparr>"

definition no_such_file :: "path \<Rightarrow> exc" where
  "no_such_file filePath =
     \<lparr>message = js ''ENOENT: no such file or directory, open '' @ [39] @ filePath @ [39],
      response_status = None\<rparr>"

text \<open>The \<open>try\<close> block: steps 1 to 4, up to the analysis or the error thrown.\<close>

definition try_block :: "env \<Rightarrow> path \<Rightarrow> (exc + analysis) \<times> effect list" where
  "try_block env filePath =
     (case files env filePath of
        None \<Rightarrow> (Inl (no_such_file filePath), [ReadFileSync filePath])
      | Some audio \<Rightarrow>
          (case upload_result env of
             Inl e \<Rightarrow> (Inl e, [ReadFileSync filePath, PostUpload audio])
           | Inr uploadUrl \<Rightarrow>
               (case transcript_result env of
                  Inl e \<Rightarrow>
                    (Inl e, [ReadFileSync filePath, PostUpload audio, PostTranscript uploadUrl])
                | Inr transcriptId \<Rightarrow>
                    (case poll_loop env transcriptId 0 None
                            [ReadFileSync filePath, PostUpload audio, PostTranscript uploadUrl] of
                       (Inl e, es) \<Rightarrow> (Inl e, es)
                     | (Inr (pollCount, transcriptData), es) \<Rightarrow>
                         if pollCount \<ge> maxPolls then (Inl timed_out, es)
                         else
                           (case transcriptData of
                              None \<Rightarrow>
                                (Inl \<lparr>message = js ''Cannot read properties of undefined (reading 'text')'',
                                      response_status = None\<rparr>, es)
                            | Some td \<Rightarrow> (analyze td, es))))))"

text \<open>\<open>String.prototype.includes\<close>\<close>

fun str_includes :: "jsstring \<Rightarrow> jsstring \<Rightarrow> bool" where
  "str_includes [] pat = (pat = [])"
| "str_includes (c # cs) pat = (take (length pat) (c # cs) = pat \<or> str_includes cs pat)"

text \<open>The \<open>catch\<close> block.\<close>

definition errorMessage :: "exc \<Rightarrow> jsstring" where
  "errorMessage error =
     (if str_includes (message error) (js ''Transcription failed'') then
        js ''Speech transcription failed. Please try again.''
      else if str_includes (message error) (js ''timed out'') then
        js ''Analysis timed out. Please try with a shorter recording.''
      else if response_status error = Some 401 then
        js ''API authentication failed. Please check server configuration.''
      else js ''An error occurred during analysis.'')"

definition error_response :: "env \<Rightarrow> exc \<Rightarrow> response" where
  "error_response env error =
     \<lparr>status_code = 500,
      body = ErrorBody (errorMessage error)
               (if NODE_ENV env = Some (js ''development'') then Some (message error) else None)\<rparr>"

definition success_response :: "analysis \<Rightarrow> response" where
  "success_response a =
     \<lparr>status_code = 200,
      body = AnalysisBody (js ''Analysis complete!'') (transcript a) (words_per_minute a)
               (filler_word_count a) (pacing a) (pauses a)\<rparr>"

text \<open>
  The \<open>finally\<close> block: the file is unlinked if it exists; an error of the unlinking
  is logged and goes no further.
\<close>

definition cleanup :: "env \<Rightarrow> path \<Rightarrow> effect list \<times> (path \<Rightarrow> bytes option)" where
  "cleanup env filePath =
     (if files env filePath \<noteq> None then
        (case unlink_error env of
           None \<Rightarrow> ([UnlinkSync filePath], (files env)(filePath := None))
         | Some e \<Rightarrow> ([UnlinkSync filePath], files env))
      else ([], files env))"

text \<open>The handler. \<open>file\<close> is \<open>req.file.path\<close>, \<open>None\<close> when no file came.\<close>

definition analyze_handler :: "env \<Rightarrow> path option \<Rightarrow> outcome" where
  "analyze_handler env file =
     (case file of
        None \<Rightarrow>
          \<lparr>response = \<lparr>status_code = 400, body = ErrorBody (js ''No file uploaded.'') None\<rparr>,
           effects = [], files_after = files env\<rparr>
      | Some filePath \<Rightarrow>
          (let (result, es) = try_block env filePath;
               res = (case result of
                        Inr a \<Rightarrow> success_response a
                      | Inl error \<Rightarrow> error_response env error);
               (es', fs') = cleanup env filePath
           in \<lparr>response = res, effects = es @ es', files_after = fs'\<rparr>))"

section \<open>The terms of the specification\<close>

subsection \<open>The suggestions by name\<close>

definition too_fast_message :: jsstring where
  "too_fast_message = js ''Your pace is quite fast. Try speaking a bit more slowly to ensure your audience can follow along.''"



definition pause_heavy_message :: "nat \<Rightarrow> jsstring" where
  "pause_heavy_message n = js ''You paused for over 2 seconds '' @ digits n
     @ js '' times. Try to make your transitions between sentences smoother.''"

definition filler_heavy_message :: "nat \<Rightarrow> jsstring" where
  "filler_heavy_message n = js ''You used '' @ digits n
     @ js '' filler words. Practice your speech to reduce reliance on words like 'um' and 'like'.''"

definition positive_message :: jsstring where
  "positive_message = js ''Great job on maintaining a smooth flow with minimal long pauses!''"

text \<open>The number that a string of decimal digits cites.\<close>

definition decimal_value :: "jsstring \<Rightarrow> nat" where
  "decimal_value ds = foldl (\<lambda>a c. 10 * a + (c - 48)) 0 ds"

subsection \<open>Long pauses, as the specification words them\<close>







text \<open>A word entry with the given offsets, which are doubles as they are.\<close>

definition word_entry :: "rat \<Rightarrow> rat \<Rightarrow> jsval" where
  "word_entry s e =
     JObj [(js ''text'', JStr (js ''w'')), (js ''start'', JNum (Fin s)), (js ''end'', JNum (Fin e))]"

subsection \<open>Tokens\<close>

text \<open>
  The whitespace-delimited non-empty tokens of a text: white space is passed over, and
  a token runs from a code unit that is not white space up to the next white space.
\<close>

function tokens :: "jsstring \<Rightarrow> jsstring list" where
  "tokens [] = []"
| "tokens (c # cs) =
     (if isSpace c then tokens cs
      else takeWhile (\<lambda>x. \<not> isSpace x) (c # cs) # tokens (dropWhile (\<lambda>x. \<not> isSpace x) cs))"
  by pat_completeness auto
termination
  by (relation "measure length") (auto simp: length_dropWhile_le less_Suc_eq_le)

subsection \<open>Whole-word matches, as the specification words them\<close>

definition to_lower :: "nat \<Rightarrow> nat" where
  "to_lower c = (if 65 \<le> c \<and> c \<le> 90 then c + 32 else c)"

text \<open>
  A lexicon entry occurs in the text at index \<open>i\<close> as a whole word: the text reads the
  entry there, whatever the case of its letters, and the code units next to the
  occurrence, if any, are no word characters.
\<close>

definition whole_word_at :: "jsstring \<Rightarrow> jsstring \<Rightarrow> nat \<Rightarrow> bool" where
  "whole_word_at entry t i =
     (i + length entry \<le> length t
      \<and> map to_lower (take (length entry) (drop i t)) = entry
      \<and> (i = 0 \<or> \<not> isWordChar (t ! (i - 1)))
      \<and> (i + length entry = length t \<or> \<not> isWordChar (t ! (i + length entry))))"

definition whole_word_matches :: "jsstring \<Rightarrow> jsstring \<Rightarrow> nat" where
  "whole_word_matches entry t = length (filter (whole_word_at entry t) [0..<Suc (length t)])"

text \<open>
  What the entries of the lexicon have in common: an entry is in lower case, begins and
  ends with a word character, and no proper suffix of it that begins at a word boundary
  begins like the entry itself.
\<close>

definition plain_entry :: "jsstring \<Rightarrow> bool" where
  "plain_entry w =
     (w \<noteq> [] \<and> isWordChar (w ! 0) \<and> isWordChar (w ! (length w - 1)) \<and> map to_lower w = w
      \<and> list_all (\<lambda>k. isWordChar (w ! (k - 1)) = isWordChar (w ! k)
                        \<or> canonicalize (w ! k) \<noteq> canonicalize (w ! 0)) [1..<length w])"

subsection \<open>Responses and effects, as the specification words them\<close>

fun is_poll :: "effect \<Rightarrow> bool" where
  "is_poll (GetTranscript i) = True"
| "is_poll e = False"

definition poll_count :: "outcome \<Rightarrow> nat" where
  "poll_count out = length (filter is_poll (effects out))"

text \<open>A poll that ends the polling: its status is \<open>completed\<close> or \<open>error\<close>.\<close>

definition terminal :: "transcriptData \<Rightarrow> bool" where
  "terminal td = (td_status td = JStr (js ''completed'') \<or> td_status td = JStr (js ''error''))"

fun is_success :: "body \<Rightarrow> bool" where
  "is_success (AnalysisBody m t w f p q) = True"
| "is_success (ErrorBody m d) = False"

fun details :: "body \<Rightarrow> jsstring option" where
  "details (ErrorBody m d) = d"
| "details (AnalysisBody m t w f p q) = None"

definition production_mode :: "env \<Rightarrow> bool" where
  "production_mode env = (NODE_ENV env = Some (js ''production''))"


subsection \<open>Sample worlds\<close>

definition processing :: transcriptData where
  "processing = \<lparr>td_status = JStr (js ''processing''), td_text = JNull,
     td_audio_duration = NaN, td_words = JNull, td_error = js ''undefined''\<rparr>"

definition completed :: transcriptData where
  "completed = \<lparr>td_status = JStr (js ''completed''),
     td_text = JStr (js ''um this is a test like really''),
     td_audio_duration = Fin 10,
     td_words = JArr [word_entry 0 400, word_entry 3000 3300, word_entry 3450 3900,
       word_entry 6500 7000],
     td_error = js ''undefined''\<rparr>"

definition sample_path :: path where
  "sample_path = js ''uploads/3f2a''"

text \<open>A world whose polls answer \<open>processing\<close> until poll number \<open>n\<close>, and \<open>completed\<close> from there on.\<close>

definition sample_env :: "nat \<Rightarrow> jsstring option \<Rightarrow> env" where
  "sample_env n mode =
     \<lparr>files = (\<lambda>p. if p = sample_path then Some [26, 69, 223, 163] else None),
      upload_result = Inr (JStr (js ''https://cdn.example/upload/1'')),
      transcript_result = Inr (JStr (js ''t1'')),
      poll_result = (\<lambda>k. if k < n then Inr processing else Inr completed),
      unlink_error = None,
      NODE_ENV = mode\<rparr>"

text \<open>A world in which the upload is refused.\<close>

definition refused :: exc where
  "refused = \<lparr>message = js ''Request failed with status code 401'', response_status = Some 401\<rparr>"

definition refusing_env :: "jsstring option \<Rightarrow> env" where
  "refusing_env mode = (sample_env 0 mode)\<lparr>upload_result := Inl refused\<rparr>"



section \<open>Verified properties\<close>

subsection \<open>Rounding to doubles\<close>

lemma ilog2_nat_bounds: "1 \<le> n \<Longrightarrow> 2 ^ ilog2_nat n \<le> n \<and> n < 2 ^ Suc (ilog2_nat n)"
proof (induction n rule: ilog2_nat.induct)
  case (1 n)
  show ?case
  proof (cases "n < 2")
    case True
    with "1.prems" have "n = 1" by simp
    then show ?thesis by (simp add: ilog2_nat.simps)
  next
    case False
    then have "1 \<le> n div 2" by simp
    with "1.IH" False have ih: "2 ^ ilog2_nat (n div 2) \<le> n div 2"
      "n div 2 < 2 ^ Suc (ilog2_nat (n div 2))"
      by simp_all
    from False have eq: "ilog2_nat n = Suc (ilog2_nat (n div 2))"
      by (subst ilog2_nat.simps) simp
    from ih(1) have "2 * 2 ^ ilog2_nat (n div 2) \<le> n" by simp
    moreover from ih(2) have "n < 2 * 2 ^ Suc (ilog2_nat (n div 2))" by simp
    ultimately show ?thesis by (simp add: eq)
  qed
qed

lemma ilog2_bounds:
  assumes "0 < a"
  shows "2 powi ilog2 a \<le> a \<and> a < 2 powi (ilog2 a + 1)"
proof (cases "1 \<le> a")
  case True
  define n where "n = nat \<lfloor>a\<rfloor>"
  from True have "1 \<le> \<lfloor>a\<rfloor>" by (simp add: le_floor_iff)
  then have n1: "1 \<le> n" unfolding n_def by linarith
  from \<open>1 \<le> \<lfloor>a\<rfloor>\<close> have "(of_nat n :: rat) = of_int \<lfloor>a\<rfloor>"
    by (simp add: n_def)
  with floor_correct [of a] have na: "of_nat n \<le> a" and an: "a < of_nat n + 1"
    by simp_all
  from ilog2_nat_bounds [OF n1] have lo: "(2::nat) ^ ilog2_nat n \<le> n" and hi: "n + 1 \<le> 2 ^ Suc (ilog2_nat n)"
    by simp_all
  from lo have "(2::rat) ^ ilog2_nat n \<le> of_nat n"
    by (metis of_nat_le_iff of_nat_numeral of_nat_power)
  from this na have l: "(2::rat) ^ ilog2_nat n \<le> a" by (rule order_trans)
  from hi have "(of_nat (n + 1) :: rat) \<le> 2 ^ Suc (ilog2_nat n)"
    by (metis of_nat_le_iff of_nat_numeral of_nat_power)
  then have "(of_nat n :: rat) + 1 \<le> 2 ^ Suc (ilog2_nat n)"
    by (simp only: of_nat_add of_nat_1)
  with an have h: "a < (2::rat) ^ Suc (ilog2_nat n)" by (rule less_le_trans)
  have k: "ilog2 a = int (ilog2_nat n)"
    using True by (simp add: ilog2_def n_def)
  have "int (ilog2_nat n) + 1 = int (Suc (ilog2_nat n))" by simp
  with l h show ?thesis
    unfolding k by (simp only: power_int_of_nat)
next
  case False
  with assms have a1: "a < 1" by simp
  define b where "b = 1 / a"
  define n where "n = nat \<lfloor>b\<rfloor>"
  define j where "j = ilog2_nat n"
  from assms a1 have b1: "1 < b" by (simp add: b_def)
  then have "1 \<le> \<lfloor>b\<rfloor>" by (simp add: le_floor_iff)
  then have n1: "1 \<le> n" unfolding n_def by linarith
  from \<open>1 \<le> \<lfloor>b\<rfloor>\<close> have "(of_nat n :: rat) = of_int \<lfloor>b\<rfloor>"
    by (simp add: n_def)
  with floor_correct [of b] have nb: "of_nat n \<le> b" and bn: "b < of_nat n + 1"
    by simp_all
  from ilog2_nat_bounds [OF n1] have lo: "(2::nat) ^ j \<le> n" and hi: "n + 1 \<le> 2 ^ Suc j"
    by (simp_all add: j_def)
  from lo have "(2::rat) ^ j \<le> of_nat n"
    by (metis of_nat_le_iff of_nat_numeral of_nat_power)
  from this nb have l: "(2::rat) ^ j \<le> b" by (rule order_trans)
  from hi have "(of_nat (n + 1) :: rat) \<le> 2 ^ Suc j"
    by (metis of_nat_le_iff of_nat_numeral of_nat_power)
  then have "(of_nat n :: rat) + 1 \<le> 2 ^ Suc j"
    by (simp only: of_nat_add of_nat_1)
  with bn have h: "b < (2::rat) ^ Suc j" by (rule less_le_trans)
  from l assms have l': "a * 2 ^ j \<le> 1"
    by (simp add: b_def field_simps)
  from h assms have h': "1 < a * 2 ^ Suc j"
    by (simp add: b_def field_simps)
  have pj: "(2::rat) powi (- int j) = 1 / 2 ^ j"
    by (simp add: power_int_minus_divide)
  have pj1: "(2::rat) powi (- int j - 1) = 1 / 2 ^ Suc j"
  proof -
    have "- int j - 1 = - int (Suc j)" by simp
    then show ?thesis by (simp only: power_int_minus_divide power_int_of_nat)
  qed
  have "(2::rat) powi (- int j + 1) = 2 powi (- int j) * 2"
    by (rule power_int_add_1) simp
  then have pj2: "(2::rat) powi (- int j + 1) = 2 / 2 ^ j"
    by (simp add: pj)
  show ?thesis
  proof (cases "a * 2 ^ j = 1")
    case True
    then have k: "ilog2 a = - int j"
      using a1 by (simp add: ilog2_def Let_def b_def n_def j_def)
    from True have "a = 1 / 2 ^ j" by (simp add: field_simps)
    then show ?thesis
      unfolding k pj pj2 by (simp add: divide_strict_right_mono)
  next
    case False
    then have k: "ilog2 a = - int j - 1"
      using a1 by (simp add: ilog2_def Let_def b_def n_def j_def)
    from False l' have "a * 2 ^ j < 1" by simp
    then have "a < 1 / 2 ^ j" by (simp add: field_simps)
    moreover from h' have "1 / 2 ^ Suc j < a" by (simp add: field_simps)
    moreover have "- int j - 1 + 1 = - int j" by simp
    ultimately show ?thesis
      unfolding k by (simp only: pj pj1) simp
  qed
qed

lemma ilog2_unique:
  assumes "2 powi k \<le> a" and "a < 2 powi (k + 1)"
  shows "ilog2 a = k"
proof -
  have "(0::rat) < 2 powi k" by (simp add: zero_less_power_int)
  from this assms(1) have pos: "0 < a" by (rule less_le_trans)
  from ilog2_bounds [OF pos] have b: "2 powi ilog2 a \<le> a" "a < 2 powi (ilog2 a + 1)"
    by simp_all
  have "\<not> ilog2 a < k"
  proof
    assume "ilog2 a < k"
    then have "ilog2 a + 1 \<le> k" by simp
    then have "(2::rat) powi (ilog2 a + 1) \<le> 2 powi k"
      by (intro power_int_increasing) simp_all
    with b(2) assms(1) show False by simp
  qed
  moreover have "\<not> k < ilog2 a"
  proof
    assume "k < ilog2 a"
    then have "k + 1 \<le> ilog2 a" by simp
    then have "(2::rat) powi (k + 1) \<le> 2 powi ilog2 a"
      by (intro power_int_increasing) simp_all
    with b(1) assms(2) show False by simp
  qed
  ultimately show ?thesis by simp
qed


lemma floor_rat_numeral:
  "\<lfloor>(numeral a :: rat) / numeral b\<rfloor> = numeral a div numeral b"
  using floor_divide_of_int_eq [of "numeral a" "numeral b", where ?'a = rat] by simp

lemma round_half_even_near:
  assumes "of_int m - 1 / 2 < q" and "q < of_int m + 1 / 2"
  shows "round_half_even q = m"
proof (cases "q < of_int m")
  case True
  with assms(1) have "\<lfloor>q\<rfloor> = m - 1"
    by (intro floor_unique) simp_all
  with assms(1) show ?thesis
    by (simp add: round_half_even_def Let_def)
next
  case False
  with assms(2) have "\<lfloor>q\<rfloor> = m"
    by (intro floor_unique) simp_all
  with assms(2) show ?thesis
    by (simp add: round_half_even_def Let_def)
qed



lemma round_half_even_tie:
  assumes "q = of_int m + 1 / 2 \<or> q = of_int m - 1 / 2" and "even m"
  shows "round_half_even q = m"
proof -
  from assms(1) show ?thesis
  proof
    assume q: "q = of_int m + 1 / 2"
    then have "\<lfloor>q\<rfloor> = m"
      by (intro floor_unique) simp_all
    with q assms(2) show ?thesis
      by (simp add: round_half_even_def Let_def)
  next
    assume q: "q = of_int m - 1 / 2"
    then have "\<lfloor>q\<rfloor> = m - 1"
      by (intro floor_unique) simp_all
    with q assms(2) show ?thesis
      by (simp add: round_half_even_def Let_def)
  qed
qed

lemma round_half_even_ge_floor: "\<lfloor>q\<rfloor> \<le> round_half_even q"
  by (simp add: round_half_even_def Let_def)

lemma round_half_even_nonneg: "0 \<le> q \<Longrightarrow> 0 \<le> round_half_even q"
  using round_half_even_ge_floor [of q] by (simp add: order_trans [of 0 "\<lfloor>q\<rfloor>"])

lemma rnd_pos:
  assumes "(2::rat) powi k \<le> x" and "x < (2::rat) powi (k + 1)"
    and "round_half_even (x / (2::rat) powi (max (k - 52) (- 1074))) = m"
    and "(of_int m :: rat) * (2::rat) powi (max (k - 52) (- 1074)) < (2::rat) powi 1024"
  shows "rnd x = Fin (of_int m * (2::rat) powi (max (k - 52) (- 1074)))"
proof -
  have "(0::rat) < 2 powi k" by (simp add: zero_less_power_int)
  from this assms(1) have pos: "0 < x" by (rule less_le_trans)
  then have ax: "\<bar>x\<bar> = x" by simp
  from ilog2_unique [OF assms(1,2)] have k: "ilog2 x = k" .
  from assms(4) have "\<not> (2::rat) powi 1024 \<le> of_int m * (2::rat) powi (max (k - 52) (- 1074))"
    by (simp only: not_le)
  with pos assms(3) show ?thesis
    unfolding rnd_def ax k Let_def by (simp only: if_False if_True less_irrefl) simp
qed

lemma rnd_overflow:
  assumes "(2::rat) powi 1024 \<le> x"
  shows "rnd x = PInf"
proof -
  have "(0::rat) < 2 powi 1024" by (simp add: zero_less_power_int)
  from this assms have pos: "0 < x" by (rule less_le_trans)
  then have ax: "\<bar>x\<bar> = x" by simp
  define k where "k = ilog2 x"
  define q where "q = x / (2::rat) powi (k - 52)"
  from ilog2_bounds [OF pos] have b: "2 powi k \<le> x" "x < 2 powi (k + 1)"
    by (simp_all add: k_def)
  have "\<not> k + 1 \<le> 1024"
  proof
    assume "k + 1 \<le> 1024"
    then have "(2::rat) powi (k + 1) \<le> 2 powi 1024"
      by (intro power_int_increasing) simp_all
    with b(2) have "x < 2 powi 1024" by (rule less_le_trans)
    with assms show False by simp
  qed
  then have k: "1024 \<le> k" by simp
  then have e: "max (k - 52) (- 1074) = k - 52" by simp
  have "(2::rat) powi (52 + (k - 52)) = 2 powi 52 * 2 powi (k - 52)"
    by (rule power_int_add) simp
  moreover have "52 + (k - 52) = k" by simp
  ultimately have p52: "(2::rat) powi k = of_int (2 ^ 52) * 2 powi (k - 52)"
    by simp
  have pe: "(0::rat) < 2 powi (k - 52)" by (simp add: zero_less_power_int)
  from b(1) have "of_int (2 ^ 52) * 2 powi (k - 52) \<le> x"
    by (simp only: p52)
  with pe have "of_int (2 ^ 52) \<le> q"
    unfolding q_def by (simp only: pos_le_divide_eq)
  then have "2 ^ 52 \<le> \<lfloor>q\<rfloor>"
    by (simp only: le_floor_iff)
  from this round_half_even_ge_floor [of q]
  have "2 ^ 52 \<le> round_half_even q" by (rule order_trans)
  then have "(of_int (2 ^ 52) :: rat) \<le> of_int (round_half_even q)"
    by (simp only: of_int_le_iff)
  with pe have "of_int (2 ^ 52) * (2::rat) powi (k - 52) \<le> of_int (round_half_even q) * 2 powi (k - 52)"
    by (intro mult_right_mono) simp_all
  then have "(2::rat) powi k \<le> of_int (round_half_even q) * 2 powi (k - 52)"
    by (simp only: p52)
  moreover from k have "(2::rat) powi 1024 \<le> 2 powi k"
    by (intro power_int_increasing) simp_all
  ultimately have "(2::rat) powi 1024 \<le> of_int (round_half_even q) * 2 powi (k - 52)"
    by (rule order_trans [rotated])
  with pos show ?thesis
    unfolding rnd_def ax Let_def k_def [symmetric] e q_def [symmetric]
    by (simp only: if_True) simp
qed

lemma rnd_nonneg: "0 \<le> x \<Longrightarrow> rnd x = PInf \<or> (\<exists>v\<ge>0. rnd x = Fin v)"
proof (cases "x = 0")
  case True
  then show ?thesis by (simp add: rnd_def)
next
  case False
  assume "0 \<le> x"
  with False have pos: "0 < x" by simp
  have "0 \<le> of_int (round_half_even (\<bar>x\<bar> / 2 powi (max (ilog2 \<bar>x\<bar> - 52) (- 1074))))
      * (2::rat) powi (max (ilog2 \<bar>x\<bar> - 52) (- 1074))"
    by (intro mult_nonneg_nonneg) (simp_all add: round_half_even_nonneg zero_le_power_int)
  with pos show ?thesis
    by (simp add: rnd_def Let_def)
qed

lemma rnd_nonpos: "x \<le> 0 \<Longrightarrow> rnd x = NInf \<or> (\<exists>v\<le>0. rnd x = Fin v)"
proof (cases "x = 0")
  case True
  then show ?thesis by (simp add: rnd_def)
next
  case False
  assume "x \<le> 0"
  with False have neg: "x < 0" by simp
  have "0 \<le> of_int (round_half_even (\<bar>x\<bar> / 2 powi (max (ilog2 \<bar>x\<bar> - 52) (- 1074))))
      * (2::rat) powi (max (ilog2 \<bar>x\<bar> - 52) (- 1074))"
    by (intro mult_nonneg_nonneg) (simp_all add: round_half_even_nonneg zero_le_power_int)
  with neg show ?thesis
    by (simp add: rnd_def Let_def)
qed



lemma Math_round_nonneg: "0 \<le> q \<Longrightarrow> \<exists>n. Math_round (Fin q) = Fin (of_nat n)"
proof -
  assume "0 \<le> q"
  then have "0 \<le> \<lfloor>q + 1 / 2\<rfloor>" by simp
  then have "(of_int \<lfloor>q + 1 / 2\<rfloor> :: rat) = of_nat (nat \<lfloor>q + 1 / 2\<rfloor>)" by simp
  then show ?thesis by auto
qed

subsection \<open>Pacing suggestion\<close>




lemma pacingSuggestion_for_int: "pacingSuggestion_for (Fin (of_int n)) = pacingSuggestion n"
  by (simp add: pacingSuggestion_for_def pacingSuggestion_def)

lemma pacingSuggestion_for_infinity: "pacingSuggestion_for PInf = too_fast_message"
  by (simp add: pacingSuggestion_for_def too_fast_message_def)

subsection \<open>Pause and filler suggestion\<close>

lemma digits_value: "decimal_value (digits n) = n"
proof (induction n rule: digits.induct)
  case (1 n)
  show ?case
  proof (cases "n < 10")
    case True
    then show ?thesis by (subst digits.simps) (simp add: decimal_value_def)
  next
    case False
    with 1 have "decimal_value (digits (n div 10)) = n div 10" by simp
    with False show ?thesis by (subst digits.simps) (simp add: decimal_value_def)
  qed
qed

lemma pause_messages_distinct:
  "pause_heavy_message n \<noteq> filler_heavy_message m" "pause_heavy_message n \<noteq> positive_message"
  "filler_heavy_message m \<noteq> positive_message"
  by (simp_all add: pause_heavy_message_def filler_heavy_message_def positive_message_def js_def)

text \<open>
  C4. For every pair of a long-pause count and a filler-word count, the suggestion is
  the pause-heavy message citing the long-pause count when that count is above 3;
  otherwise the filler-heavy message citing the filler-word count when that count is
  above 5; otherwise the positive message. The three messages differ from one another,
  each cited count can be read back from its digits, and for 4 long pauses and 10 filler
  words the suggestion is the pause-heavy message.
\<close>

theorem pauseSuggestion_priority:
  "pauseSuggestion longPauses fillers =
     (if longPauses > 3 then pause_heavy_message longPauses
      else if fillers > 5 then filler_heavy_message fillers
      else positive_message)
   \<and> pause_heavy_message longPauses \<noteq> filler_heavy_message fillers
   \<and> pause_heavy_message longPauses \<noteq> positive_message
   \<and> filler_heavy_message fillers \<noteq> positive_message
   \<and> decimal_value (digits longPauses) = longPauses
   \<and> decimal_value (digits fillers) = fillers
   \<and> pauseSuggestion 4 10 = pause_heavy_message 4"
  using pause_messages_distinct digits_value
  by (simp add: pauseSuggestion_def pause_heavy_message_def filler_heavy_message_def
      positive_message_def)

theorem pauseSuggestion_priority_witness:
  "pauseSuggestion 4 10 = js ''You paused for over 2 seconds 4 times. Try to make your transitions between sentences smoother.''
   \<and> pauseSuggestion 3 10 = js ''You used 10 filler words. Practice your speech to reduce reliance on words like 'um' and 'like'.''
   \<and> pauseSuggestion 3 5 = positive_message"
  using pauseSuggestion_priority [of 4 10] pauseSuggestion_priority [of 3 10]
    pauseSuggestion_priority [of 3 5]
  by (simp add: pause_heavy_message_def filler_heavy_message_def js_def digits.simps)

subsection \<open>Long pauses\<close>







subsection \<open>Word count and words per minute\<close>

lemma takeWhile_all: "\<forall>x\<in>set xs. P x \<Longrightarrow> takeWhile P xs = xs"
  by simp

lemma dropWhile_all: "\<forall>x\<in>set xs. P x \<Longrightarrow> dropWhile P xs = []"
  by simp

lemma tokens_spaces: "\<forall>x\<in>set ws. isSpace x \<Longrightarrow> tokens (ws @ ys) = tokens ys"
  by (induction ws) auto

lemma tokens_dropWhile: "tokens (dropWhile isSpace cs) = tokens cs"
  by (induction cs) auto

lemma tokens_word_then_space:
  assumes "\<forall>x\<in>set cur. \<not> isSpace x" and "cur \<noteq> []" and "isSpace c"
  shows "tokens (cur @ c # cs) = cur # tokens cs"
proof -
  from assms(2) obtain a cur' where cur: "cur = a # cur'"
    by (cases cur) auto
  with assms(1) have a: "\<not> isSpace a" and rest: "\<forall>x\<in>set cur'. \<not> isSpace x"
    by auto
  from rest assms(3) have "takeWhile (\<lambda>x. \<not> isSpace x) (cur' @ c # cs) = cur'"
    and "dropWhile (\<lambda>x. \<not> isSpace x) (cur' @ c # cs) = c # cs"
    by simp_all
  with a assms(3) show ?thesis
    by (simp add: cur)
qed

lemma tokens_word: "\<forall>x\<in>set cur. \<not> isSpace x \<Longrightarrow> cur \<noteq> [] \<Longrightarrow> tokens cur = [cur]"
proof (cases cur)
  case Nil
  assume "cur \<noteq> []"
  with Nil show ?thesis by simp
next
  case (Cons a cur')
  assume "\<forall>x\<in>set cur. \<not> isSpace x"
  with Cons have "\<not> isSpace a" and "\<forall>x\<in>set cur'. \<not> isSpace x"
    by auto
  then show ?thesis
    by (simp add: Cons takeWhile_all dropWhile_all)
qed

lemma split_ws_tokens:
  "\<forall>x\<in>set cur. \<not> isSpace x \<Longrightarrow>
   filter (\<lambda>word. length word > 0) (split_ws cur s) = tokens (cur @ s)"
proof (induction cur s rule: split_ws.induct)
  case (1 cur)
  then show ?case
    by (cases "cur = []") (simp_all add: tokens_word)
next
  case (2 cur c cs)
  show ?case
  proof (cases "isSpace c")
    case True
    with 2 have "filter (\<lambda>word. length word > 0) (split_ws [] (dropWhile isSpace cs)) = tokens cs"
      by (simp add: tokens_dropWhile)
    with True 2(3) show ?thesis
      by (cases "cur = []") (simp_all add: tokens_word_then_space)
  next
    case False
    with 2 show ?thesis by simp
  qed
qed

lemma tokens_around_spaces:
  "ws \<noteq> [] \<Longrightarrow> \<forall>x\<in>set ws. isSpace x \<Longrightarrow> tokens (xs @ ws @ ys) = tokens xs @ tokens ys"
proof (induction xs rule: tokens.induct)
  case 1
  then show ?case by (simp add: tokens_spaces)
next
  case (2 c cs)
  show ?case
  proof (cases "isSpace c")
    case True
    with 2 show ?thesis by simp
  next
    case False
    from 2(3,4) obtain w ws' where ws: "ws = w # ws'" and w: "isSpace w"
      by (cases ws) auto
    have tw: "takeWhile (\<lambda>x. \<not> isSpace x) (cs @ ws @ ys) = takeWhile (\<lambda>x. \<not> isSpace x) cs"
      using w by (auto simp: takeWhile_append ws takeWhile_all)
    have dw: "dropWhile (\<lambda>x. \<not> isSpace x) (cs @ ws @ ys)
        = dropWhile (\<lambda>x. \<not> isSpace x) cs @ ws @ ys"
      using w by (auto simp: dropWhile_append ws dropWhile_all)
    from False 2 have "tokens (dropWhile (\<lambda>x. \<not> isSpace x) cs @ ws @ ys)
        = tokens (dropWhile (\<lambda>x. \<not> isSpace x) cs) @ tokens ys"
      by simp
    with False show ?thesis
      by (simp add: tw dw)
  qed
qed

lemma wordCount_tokens: "wordCount t = length (tokens t)"
  using split_ws_tokens [of "[]" t] by (simp add: wordCount_def)

lemma num_div_nonneg:
  "0 \<le> a \<Longrightarrow> 0 < b \<Longrightarrow>
   num_div (Fin a) (Fin b) = PInf \<or> (\<exists>v\<ge>0. num_div (Fin a) (Fin b) = Fin v)"
  using rnd_nonneg [of "a / b"] by simp

lemma wordsPerMinute_range:
  "(\<exists>n. wordsPerMinute t d = Fin (of_nat n)) \<or> wordsPerMinute t d = PInf"
proof (cases "num_gt (num_div d (Fin 60)) 0")
  case False
  then have "wordsPerMinute t d = Fin (of_nat 0)"
    by (simp add: wordsPerMinute_def)
  then show ?thesis by blast
next
  case True
  show ?thesis
  proof (cases "num_div d (Fin 60)")
    case NaN
    with True show ?thesis by simp
  next
    case NInf
    with True show ?thesis by simp
  next
    case PInf
    have "\<lfloor>(0::rat) + 1 / 2\<rfloor> = 0"
      by (simp add: floor_eq_iff)
    with PInf have "wordsPerMinute t d = Fin (of_nat 0)"
      by (simp add: wordsPerMinute_def)
    then show ?thesis by blast
  next
    case (Fin a)
    with True have a: "0 < a" by simp
    have wc: "(0::rat) \<le> of_nat (wordCount t)" by simp
    from num_div_nonneg [OF wc a] show ?thesis
    proof
      assume "num_div (Fin (of_nat (wordCount t))) (Fin a) = PInf"
      with Fin True show ?thesis
        by (simp add: wordsPerMinute_def)
    next
      assume "\<exists>v\<ge>0. num_div (Fin (of_nat (wordCount t))) (Fin a) = Fin v"
      then obtain v where v: "0 \<le> v" "num_div (Fin (of_nat (wordCount t))) (Fin a) = Fin v"
        by blast
      from Math_round_nonneg [OF v(1)] obtain n where "Math_round (Fin v) = Fin (of_nat n)"
        by blast
      with Fin True v(2) have "wordsPerMinute t d = Fin (of_nat n)"
        by (simp add: wordsPerMinute_def)
      then show ?thesis by blast
    qed
  qed
qed

lemma wordsPerMinute_not_positive:
  assumes "d = NaN \<or> d = NInf \<or> (\<exists>r. d = Fin r \<and> r \<le> 0)"
  shows "wordsPerMinute t d = Fin 0"
proof -
  have "\<not> num_gt (num_div d (Fin 60)) 0"
  proof (cases d)
    case (Fin r)
    with assms have "r / 60 \<le> 0" by simp
    from rnd_nonpos [OF this] Fin show ?thesis by auto
  next
    case PInf
    with assms show ?thesis by simp
  qed simp_all
  then show ?thesis
    by (simp add: wordsPerMinute_def)
qed

text \<open>
  C2, as the code has it. For every transcript text and duration, words per minute is
  \<open>Math.round\<close> of the quotient of the word count by the duration divided by 60,
  both divisions being those of doubles, when the duration divided by 60 is above 0,
  and 0 otherwise: for the duration 0, for a negative or missing one, and for one so
  small that its sixtieth rounds to 0. It is a non-negative integer or, where the
  quotient overflows, \<open>Infinity\<close>. The word count is the number of
  whitespace-delimited non-empty tokens of the text, and it does not change when a run
  of white space is replaced by another one.
\<close>

theorem wordsPerMinute_doubles:
  "wordsPerMinute t d =
     (if num_gt (num_div d (Fin 60)) 0
      then Math_round (num_div (Fin (of_nat (wordCount t))) (num_div d (Fin 60)))
      else Fin 0)
   \<and> (num_div d (Fin 60) = Fin a \<and> 0 < a
        \<and> num_div (Fin (of_nat (wordCount t))) (Fin a) = Fin q
      \<longrightarrow> wordsPerMinute t d = Fin (of_int (round q)))
   \<and> wordsPerMinute t (Fin 0) = Fin 0
   \<and> (d = NaN \<or> d = NInf \<or> (\<exists>r. d = Fin r \<and> r \<le> 0) \<longrightarrow> wordsPerMinute t d = Fin 0)
   \<and> ((\<exists>n. wordsPerMinute t d = Fin (of_nat n)) \<or> wordsPerMinute t d = PInf)
   \<and> wordCount t = length (tokens t)
   \<and> (ws \<noteq> [] \<and> ws' \<noteq> [] \<and> (\<forall>x\<in>set (ws @ ws'). isSpace x)
        \<longrightarrow> wordCount (xs @ ws @ ys) = wordCount (xs @ ws' @ ys))"
proof -
  have "wordsPerMinute t d =
     (if num_gt (num_div d (Fin 60)) 0
      then Math_round (num_div (Fin (of_nat (wordCount t))) (num_div d (Fin 60)))
      else Fin 0)"
    by (simp add: wordsPerMinute_def)
  moreover have "num_div d (Fin 60) = Fin a \<and> 0 < a
        \<and> num_div (Fin (of_nat (wordCount t))) (Fin a) = Fin q
      \<longrightarrow> wordsPerMinute t d = Fin (of_int (round q))"
    by (simp add: wordsPerMinute_def round_def)
  moreover have "wordsPerMinute t (Fin 0) = Fin 0"
    by (rule wordsPerMinute_not_positive) simp
  moreover have "d = NaN \<or> d = NInf \<or> (\<exists>r. d = Fin r \<and> r \<le> 0) \<longrightarrow> wordsPerMinute t d = Fin 0"
    using wordsPerMinute_not_positive by blast
  moreover have "ws \<noteq> [] \<and> ws' \<noteq> [] \<and> (\<forall>x\<in>set (ws @ ws'). isSpace x)
        \<longrightarrow> wordCount (xs @ ws @ ys) = wordCount (xs @ ws' @ ys)"
    by (simp add: wordCount_tokens tokens_around_spaces)
  ultimately show ?thesis
    using wordsPerMinute_range [of t d] wordCount_tokens [of t] by blast
qed

lemma wordCount_seven: "wordCount (js ''um this is a test like really'') = 7"
  by (simp add: wordCount_def js_def isSpace_def)

theorem wordsPerMinute_doubles_witness:
  "wordsPerMinute (js ''um this is a test like really'') (Fin 10) = Fin 42
   \<and> wordsPerMinute (js ''um this is a test like really'') (Fin 0) = Fin 0
   \<and> wordCount (js ''um  this'') = wordCount (js ''um this'')
   \<and> wordCount (js ''um this is a test like really'') = 7"
proof -
  let ?t = "js ''um this is a test like really''"
  let ?a = "6004799503160661 / 36028797018963968 :: rat"
  note th = wordsPerMinute_doubles [of ?t "Fin 10" ?a 42 "js ''  ''" "js '' ''" "js ''um''" "js ''this''"]
  have d: "num_div (Fin 10) (Fin 60) = Fin ?a"
    using rnd_pos [of "- 3" "10 / 60" 6004799503160661]
    by (simp add: round_half_even_near)
  have q: "num_div (Fin (of_nat (wordCount ?t))) (Fin ?a) = Fin 42"
    using rnd_pos [of 5 "7 / ?a" "42 * 2 ^ 47"]
    by (simp add: wordCount_seven round_half_even_near)
  have pos: "0 < ?a"
    by simp
  from th have "num_div (Fin 10) (Fin 60) = Fin ?a \<and> 0 < ?a
      \<and> num_div (Fin (of_nat (wordCount ?t))) (Fin ?a) = Fin 42
      \<longrightarrow> wordsPerMinute ?t (Fin 10) = Fin (of_int (round (42 :: rat)))"
    by blast
  with d q pos have "wordsPerMinute ?t (Fin 10) = Fin (of_int (round (42 :: rat)))"
    by blast
  then have w: "wordsPerMinute ?t (Fin 10) = Fin 42"
    by simp
  from wordsPerMinute_doubles [of ?t "Fin 0" 1 1 "[]" "[]" "[]" "[]"]
  have z: "wordsPerMinute ?t (Fin 0) = Fin 0"
    by blast
  have sp: "js ''um  this'' = js ''um'' @ js ''  '' @ js ''this''"
    "js ''um this'' = js ''um'' @ js '' '' @ js ''this''"
    by (simp_all add: js_def)
  have ws: "js ''  '' \<noteq> [] \<and> js '' '' \<noteq> [] \<and> (\<forall>x\<in>set (js ''  '' @ js '' ''). isSpace x)"
    by (simp add: js_def isSpace_def)
  from th have "js ''  '' \<noteq> [] \<and> js '' '' \<noteq> [] \<and> (\<forall>x\<in>set (js ''  '' @ js '' ''). isSpace x)
      \<longrightarrow> wordCount (js ''um'' @ js ''  '' @ js ''this'') = wordCount (js ''um'' @ js '' '' @ js ''this'')"
    by blast
  with ws have "wordCount (js ''um  this'') = wordCount (js ''um this'')"
    unfolding sp by blast
  with w z wordCount_seven show ?thesis
    by blast
qed

text \<open>
  C2, as the specification has it, fails. A duration of 1e-320 seconds is the double
  \<open>2024 * 2 ^ -1074\<close>; its sixtieth is the double \<open>34 * 2 ^ -1074\<close>, which is above
  0, and one word divided by it overflows: words per minute is \<open>Infinity\<close>, which is
  no integer. And for 23 words in 184 seconds the two divisions in doubles give
  7.499999999999999 and so 7 words per minute, where the exact quotient 7.5 rounds
  to 8.
\<close>

theorem wordsPerMinute_integer_counterexample:
  "rnd (1 / 10 ^ 320) = Fin (dyadic 2024 (- 1074))
   \<and> wordsPerMinute (js ''um'') (Fin (dyadic 2024 (- 1074))) = PInf
   \<and> wordCount (js ''a a a a a a a a a a a a a a a a a a a a a a a'') = 23
   \<and> wordsPerMinute (js ''a a a a a a a a a a a a a a a a a a a a a a a'') (Fin 184) = Fin 7
   \<and> round (23 / (184 / 60) :: rat) = 8"
proof -
  have f1: "rnd (1 / 10 ^ 320) = Fin (dyadic 2024 (- 1074))"
    using rnd_pos [of "- 1064" "1 / 10 ^ 320" 2024]
    by (simp add: dyadic_def round_half_even_near)
  have f2: "num_div (Fin (dyadic 2024 (- 1074))) (Fin 60) = Fin (dyadic 34 (- 1074))"
    using rnd_pos [of "- 1069" "dyadic 2024 (- 1074) / 60" 34]
    by (simp add: dyadic_def round_half_even_near)
  have f3: "num_gt (Fin (dyadic 34 (- 1074))) 0"
    by (simp add: dyadic_def)
  have "rnd (1 / dyadic 34 (- 1074)) = PInf"
    by (rule rnd_overflow) (simp add: dyadic_def)
  then have f4: "num_div (Fin 1) (Fin (dyadic 34 (- 1074))) = PInf"
    using f3 by simp
  have one: "wordCount (js ''um'') = 1"
    by (simp add: wordCount_def js_def isSpace_def)
  from f2 f3 f4 one have inf: "wordsPerMinute (js ''um'') (Fin (dyadic 2024 (- 1074))) = PInf"
    by (simp add: wordsPerMinute_def)
  have wc: "wordCount (js ''a a a a a a a a a a a a a a a a a a a a a a a'') = 23"
    by (simp add: wordCount_def js_def isSpace_def)
  have g1: "num_div (Fin 184) (Fin 60) = Fin (6905519428634761 / 2251799813685248)"
    using rnd_pos [of 1 "184 / 60" 6905519428634761]
    by (simp add: round_half_even_near)
  have g2: "num_div (Fin 23) (Fin (6905519428634761 / 2251799813685248))
      = Fin (8444249301319679 / 1125899906842624)"
    using rnd_pos [of 2 "23 / (6905519428634761 / 2251799813685248)" 8444249301319679]
    by (simp add: round_half_even_near)
  have g3: "Math_round (Fin (8444249301319679 / 1125899906842624)) = Fin 7"
    by (simp add: floor_eq_iff)
  from wc g1 g2 g3
  have seven: "wordsPerMinute (js ''a a a a a a a a a a a a a a a a a a a a a a a'') (Fin 184) = Fin 7"
    by (simp add: wordsPerMinute_def)
  have "round (23 / (184 / 60) :: rat) = 8"
    by (simp add: round_def floor_eq_iff)
  with f1 inf wc seven show ?thesis
    by simp
qed

subsection \<open>Filler words\<close>

lemma regex_exec_bounds:
  "regex_exec filler t i = Some e \<Longrightarrow> i + length filler \<le> e \<and> e \<le> length t"
proof (induction filler t i rule: regex_exec.induct)
  case (1 filler t lastIndex)
  then show ?case
    by (subst (asm) (2) regex_exec.simps) (auto simp: match_at_def split: if_splits)
qed

lemma canonicalize_to_lower:
  "canonicalize c = canonicalize d \<longleftrightarrow> to_lower c = to_lower d"
  by (auto simp: canonicalize_def to_lower_def split: if_splits)

lemma canonicalize_isWordChar:
  "canonicalize c = canonicalize d \<Longrightarrow> isWordChar c = isWordChar d"
  by (auto simp: canonicalize_def isWordChar_def split: if_splits)

lemma map_canonicalize_to_lower:
  "map canonicalize xs = map canonicalize ys \<longleftrightarrow> map to_lower xs = map to_lower ys"
proof (induction xs arbitrary: ys)
  case Nil
  then show ?case by simp
next
  case (Cons x xs)
  then show ?case
    by (cases ys) (simp_all add: canonicalize_to_lower)
qed

lemma literal_nth:
  assumes "i + length w \<le> length t"
    and "map canonicalize (take (length w) (drop i t)) = map canonicalize w"
    and "k < length w"
  shows "canonicalize (t ! (i + k)) = canonicalize (w ! k)"
proof -
  from assms(1,3) have "map canonicalize (take (length w) (drop i t)) ! k
      = canonicalize (t ! (i + k))"
    by simp
  moreover from assms(3) have "map canonicalize w ! k = canonicalize (w ! k)"
    by simp
  ultimately show ?thesis
    by (simp only: assms(2))
qed

lemma plain_entry_fillers: "\<forall>w\<in>set fillerWordsList. plain_entry w"
proof -
  have "list_all plain_entry fillerWordsList"
    by code_simp
  then show ?thesis
    by (simp add: list_all_iff)
qed

lemma match_at_whole_word:
  assumes "plain_entry w"
  shows "match_at w t i = whole_word_at w t i"
proof -
  let ?lit = "map canonicalize (take (length w) (drop i t)) = map canonicalize w"
  let ?low = "map to_lower (take (length w) (drop i t)) = w"
  from assms have n: "0 < length w" and first: "isWordChar (w ! 0)"
    and last: "isWordChar (w ! (length w - 1))" and low: "map to_lower w = w"
    by (simp_all add: plain_entry_def)
  have "?lit \<longleftrightarrow> map to_lower (take (length w) (drop i t)) = map to_lower w"
    by (rule map_canonicalize_to_lower)
  then have lit_low: "?lit \<longleftrightarrow> ?low"
    by (simp only: low)
  show ?thesis
  proof (cases "i + length w \<le> length t \<and> ?lit")
    case False
    then have "\<not> match_at w t i"
      unfolding match_at_def by blast
    moreover from False lit_low have "\<not> whole_word_at w t i"
      unfolding whole_word_at_def by blast
    ultimately show ?thesis
      by blast
  next
    case True
    then have len: "i + length w \<le> length t" and lit: ?lit
      by blast+
    from literal_nth [OF len lit n] have "canonicalize (t ! i) = canonicalize (w ! 0)"
      by simp
    from canonicalize_isWordChar [OF this] first have at_i: "isWordChar (t ! i)"
      by blast
    from n have "length w - 1 < length w"
      by simp
    from literal_nth [OF len lit this]
    have "canonicalize (t ! (i + (length w - 1))) = canonicalize (w ! (length w - 1))" .
    from canonicalize_isWordChar [OF this] last
    have "isWordChar (t ! (i + (length w - 1)))"
      by blast
    moreover from n have "i + (length w - 1) = i + length w - 1"
      by arith
    ultimately have at_end: "isWordChar (t ! (i + length w - 1))"
      by (simp only:)
    from len n have il: "i < length t" and iw: "i + length w - 1 < length t" "0 < i + length w"
      by arith+
    from at_i il have b1: "boundary t i \<longleftrightarrow> i = 0 \<or> \<not> isWordChar (t ! (i - 1))"
      by (auto simp: boundary_def wordCharBefore_def wordCharAt_def)
    from at_end len iw have b2: "boundary t (i + length w)
        \<longleftrightarrow> i + length w = length t \<or> \<not> isWordChar (t ! (i + length w))"
      by (auto simp: boundary_def wordCharBefore_def wordCharAt_def)
    from True lit_low have low': ?low
      by blast
    from len lit b1 b2 have "match_at w t i \<longleftrightarrow>
        (i = 0 \<or> \<not> isWordChar (t ! (i - 1)))
        \<and> (i + length w = length t \<or> \<not> isWordChar (t ! (i + length w)))"
      unfolding match_at_def by blast
    moreover from len low' have "whole_word_at w t i \<longleftrightarrow>
        (i = 0 \<or> \<not> isWordChar (t ! (i - 1)))
        \<and> (i + length w = length t \<or> \<not> isWordChar (t ! (i + length w)))"
      unfolding whole_word_at_def by blast
    ultimately show ?thesis
      by blast
  qed
qed

lemma match_at_no_overlap:
  assumes "plain_entry w" and "match_at w t i" and "i < j" and "j < i + length w"
  shows "\<not> match_at w t j"
proof
  assume mj: "match_at w t j"
  define k where "k = j - i"
  with assms(3,4) have k: "0 < k" "k < length w" "j = i + k" "j - 1 = i + (k - 1)"
    by simp_all
  from assms(2) have len: "i + length w \<le> length t"
    and lit: "map canonicalize (take (length w) (drop i t)) = map canonicalize w"
    by (simp_all add: match_at_def)
  from mj have lenj: "j + length w \<le> length t"
    and litj: "map canonicalize (take (length w) (drop j t)) = map canonicalize w"
    and bj: "boundary t j"
    by (simp_all add: match_at_def)
  from literal_nth [OF len lit, of k] k have ck: "canonicalize (t ! j) = canonicalize (w ! k)"
    by simp
  from literal_nth [OF len lit, of "k - 1"] k
  have ck1: "canonicalize (t ! (j - 1)) = canonicalize (w ! (k - 1))"
    by simp
  from k(2) have "0 < length w"
    by auto
  from literal_nth [OF lenj litj this] have c0: "canonicalize (t ! j) = canonicalize (w ! 0)"
    by simp
  from k lenj assms(3) have "wordCharBefore t j = isWordChar (t ! (j - 1))"
    and "wordCharAt t j = isWordChar (t ! j)"
    by (auto simp: wordCharBefore_def wordCharAt_def)
  with bj have "isWordChar (t ! (j - 1)) \<noteq> isWordChar (t ! j)"
    by (simp add: boundary_def)
  with canonicalize_isWordChar [OF ck] canonicalize_isWordChar [OF ck1]
  have diff: "isWordChar (w ! (k - 1)) \<noteq> isWordChar (w ! k)"
    by simp
  from assms(1) k have "isWordChar (w ! (k - 1)) = isWordChar (w ! k)
      \<or> canonicalize (w ! k) \<noteq> canonicalize (w ! 0)"
    by (simp add: plain_entry_def list_all_iff)
  with diff ck c0 show False
    by simp
qed

lemma regex_exec_None:
  "regex_exec w t i = None \<Longrightarrow> i \<le> j \<Longrightarrow> j \<le> length t \<Longrightarrow> \<not> match_at w t j"
proof (induction w t i rule: regex_exec.induct)
  case (1 w t i)
  from "1.prems" have inside: "i \<le> length t"
    by simp
  with "1.prems"(1) have all: "\<not> match_at w t i \<and> regex_exec w t (i + 1) = None"
    by (subst (asm) regex_exec.simps) (simp split: if_splits)
  then have here: "\<not> match_at w t i" and rest: "regex_exec w t (i + 1) = None"
    by simp_all
  show ?case
  proof (cases "j = i")
    case True
    with here show ?thesis by simp
  next
    case False
    with "1.prems" have "i + 1 \<le> j" by simp
    with "1.IH" inside here rest "1.prems"(3) show ?thesis by simp
  qed
qed

lemma regex_exec_Some:
  "regex_exec w t i = Some e \<Longrightarrow>
   \<exists>p. i \<le> p \<and> e = p + length w \<and> match_at w t p \<and> (\<forall>j. i \<le> j \<and> j < p \<longrightarrow> \<not> match_at w t j)"
proof (induction w t i rule: regex_exec.induct)
  case (1 w t i)
  from "1.prems" have inside: "i \<le> length t"
    by (subst (asm) regex_exec.simps) (simp split: if_splits)
  show ?case
  proof (cases "match_at w t i")
    case True
    with "1.prems" inside have "e = i + length w"
      by (subst (asm) regex_exec.simps) simp
    with True show ?thesis by auto
  next
    case False
    with "1.prems" inside have "regex_exec w t (i + 1) = Some e"
      by (subst (asm) regex_exec.simps) simp
    with "1.IH" False inside obtain p where p: "i + 1 \<le> p" "e = p + length w" "match_at w t p"
      "\<forall>j. i + 1 \<le> j \<and> j < p \<longrightarrow> \<not> match_at w t j"
      by auto
    have "\<forall>j. i \<le> j \<and> j < p \<longrightarrow> \<not> match_at w t j"
    proof (intro allI impI)
      fix j assume j: "i \<le> j \<and> j < p"
      show "\<not> match_at w t j"
      proof (cases "j = i")
        case True
        with False show ?thesis by simp
      next
        case False
        with j p(4) show ?thesis by simp
      qed
    qed
    with p show ?thesis
      by (intro exI [of _ p]) simp
  qed
qed

lemma filter_upt_none:
  "(\<And>j. a \<le> j \<Longrightarrow> j < b \<Longrightarrow> \<not> P j) \<Longrightarrow> filter P [a..<b] = []"
  by (simp add: filter_empty_conv)

lemma upt_split3:
  assumes "i \<le> p" and "p < e" and "e \<le> m"
  shows "[i..<m] = [i..<p] @ p # [Suc p..<e] @ [e..<m]"
proof -
  from assms have "[i..<m] = [i..<p] @ [p..<m]"
    using upt_add_eq_append [of i p "m - p"] by simp
  also from assms have "[p..<m] = p # [Suc p..<m]"
    by (simp add: upt_conv_Cons)
  also from assms have "[Suc p..<m] = [Suc p..<e] @ [e..<m]"
    using upt_add_eq_append [of "Suc p" e "m - e"] by simp
  finally show ?thesis .
qed

lemma match_count_positions:
  assumes "plain_entry w"
  shows "match_count w t i = length (filter (match_at w t) [i..<Suc (length t)])"
  using assms
proof (induction w t i rule: match_count.induct)
  case (1 w t i)
  from "1.prems" have n: "0 < length w"
    by (auto simp: plain_entry_def)
  show ?case
  proof (cases "regex_exec w t i")
    case None
    have "filter (match_at w t) [i..<Suc (length t)] = []"
    proof (rule filter_upt_none)
      fix j assume "i \<le> j" and "j < Suc (length t)"
      then show "\<not> match_at w t j"
        using regex_exec_None [OF None, of j] by simp
    qed
    moreover from None have "match_count w t i = 0"
      by (subst match_count.simps) simp
    ultimately show ?thesis
      by (simp only: list.size)
  next
    case (Some e)
    from regex_exec_Some [OF Some] obtain p where p: "i \<le> p" "e = p + length w"
      "match_at w t p" "\<forall>j. i \<le> j \<and> j < p \<longrightarrow> \<not> match_at w t j"
      by blast
    from regex_exec_bounds [OF Some] have e: "e \<le> Suc (length t)"
      by simp
    from p(2) n have pe: "p < e"
      by simp
    have split: "[i..<Suc (length t)] = [i..<p] @ p # [Suc p..<e] @ [e..<Suc (length t)]"
      using p(1) pe e by (rule upt_split3)
    have f1: "filter (match_at w t) [i..<p] = []"
      using p(4) by (intro filter_upt_none) simp
    have f2: "filter (match_at w t) [Suc p..<e] = []"
    proof (rule filter_upt_none)
      fix j assume "Suc p \<le> j" and "j < e"
      with p(2) match_at_no_overlap [OF "1.prems" p(3), of j] show "\<not> match_at w t j"
        by simp
    qed
    from n have "(if length w = 0 then e + 1 else e) = e"
      by simp
    with "1.IH" [OF Some] "1.prems"
    have ih: "match_count w t e = length (filter (match_at w t) [e..<Suc (length t)])"
      by simp
    from Some n have "match_count w t i = Suc (match_count w t e)"
      by (subst match_count.simps) simp
    also have "\<dots> = length (filter (match_at w t)
        ([i..<p] @ p # [Suc p..<e] @ [e..<Suc (length t)]))"
      by (simp add: ih f1 f2 p(3) del: upt_Suc)
    finally show ?thesis
      by (simp only: split)
  qed
qed

lemma foldl_add_sum_list:
  "foldl (\<lambda>count x. count + g x) (a :: nat) xs = a + sum_list (map g xs)"
  by (induction xs arbitrary: a) simp_all

lemma match_count_whole_word:
  assumes "w \<in> set fillerWordsList"
  shows "match_count w t 0 = whole_word_matches w t"
proof -
  from assms plain_entry_fillers have pe: "plain_entry w"
    by blast
  have "match_at w t = whole_word_at w t"
    by (rule ext) (rule match_at_whole_word [OF pe])
  with match_count_positions [OF pe, of t 0] show ?thesis
    by (simp only: whole_word_matches_def)
qed

lemma whole_word_apart:
  assumes "w \<in> set fillerWordsList" and "whole_word_at w t i" and "whole_word_at w t j"
    and "i < j"
  shows "i + length w \<le> j"
proof (rule ccontr)
  assume "\<not> i + length w \<le> j"
  then have "j < i + length w"
    by simp
  from assms(1) plain_entry_fillers have pe: "plain_entry w"
    by blast
  from assms(2,3) have "match_at w t i" and "match_at w t j"
    by (simp_all only: match_at_whole_word [OF pe])
  with match_at_no_overlap [OF pe _ assms(4) \<open>j < i + length w\<close>] show False
    by blast
qed

lemma filler_examples:
  "fillerWordCount (js ''I like it'') = 1" "fillerWordCount (js ''dislike'') = 0"
  by code_simp+

text \<open>
  C3. For every transcript text, the filler-word count is the sum, over the fixed
  lexicon, of the number of places where the entry occurs in the text as a whole word,
  whatever the case of its letters. Two occurrences of one entry never overlap. An
  entry inside a longer word is not counted: "I like it" counts 1, "dislike" counts 0.
\<close>

theorem fillerWordCount_whole_words:
  "fillerWordCount t = sum_list (map (\<lambda>entry. whole_word_matches entry t) fillerWordsList)
   \<and> (entry \<in> set fillerWordsList \<and> whole_word_at entry t i \<and> whole_word_at entry t j \<and> i < j
        \<longrightarrow> i + length entry \<le> j)
   \<and> fillerWordCount (js ''I like it'') = 1
   \<and> fillerWordCount (js ''dislike'') = 0"
proof -
  have "fillerWordCount t = sum_list (map (\<lambda>entry. match_count entry t 0) fillerWordsList)"
    by (simp add: fillerWordCount_def foldl_add_sum_list)
  also have "map (\<lambda>entry. match_count entry t 0) fillerWordsList
      = map (\<lambda>entry. whole_word_matches entry t) fillerWordsList"
    by (rule map_cong [OF refl]) (rule match_count_whole_word)
  finally show ?thesis
    using whole_word_apart [of entry t i j] filler_examples by blast
qed

theorem fillerWordCount_whole_words_witness:
  "js ''so'' \<in> set fillerWordsList \<and> whole_word_at (js ''so'') (js ''So, so?'') 0
   \<and> whole_word_at (js ''so'') (js ''So, so?'') 4
   \<and> fillerWordCount (js ''So, so?'') = 2
   \<and> fillerWordCount (js ''I like it'') = 1 \<and> fillerWordCount (js ''dislike'') = 0"
proof -
  have a: "js ''so'' \<in> set fillerWordsList"
    by (simp add: fillerWordsList_def)
  have b: "whole_word_at (js ''so'') (js ''So, so?'') 0"
    "whole_word_at (js ''so'') (js ''So, so?'') 4"
    by code_simp+
  have c: "sum_list (map (\<lambda>entry. whole_word_matches entry (js ''So, so?'')) fillerWordsList) = 2"
    by code_simp
  from a b c show ?thesis
    using fillerWordCount_whole_words [of "js ''So, so?''" "js ''so''" 0 4]
    by simp
qed

subsection \<open>The request handler\<close>

text \<open>
  C6. For every request with no file attached, the response is HTTP 400 with the body
  \<open>{error: "No file uploaded."}\<close>, and the handler does nothing else: no call to the
  transcription provider, no change of the file system.
\<close>

theorem no_file_400:
  "analyze_handler env None =
     \<lparr>response = \<lparr>status_code = 400, body = ErrorBody (js ''No file uploaded.'') None\<rparr>,
      effects = [], files_after = files env\<rparr>
   \<and> filter provider_call (effects (analyze_handler env None)) = []"
  by (simp add: analyze_handler_def)

theorem no_file_400_witness:
  "status_code (response (analyze_handler (sample_env 0 None) None)) = 400
   \<and> body (response (analyze_handler (sample_env 0 None) None))
       = ErrorBody (js ''No file uploaded.'') None
   \<and> effects (analyze_handler (sample_env 0 None) None) = []"
  using no_file_400 [of "sample_env 0 None"] by simp


lemma poll_loop_left_early:
  assumes "poll_loop env tid pc td0 es = (Inr (n, tdo), es')" and "n < maxPolls"
  shows "pc \<le> n
    \<and> (\<exists>td. tdo = Some td \<and> poll_result env n = Inr td \<and> td_status td = JStr (js ''completed''))
    \<and> es' = es @ replicate (Suc (n - pc)) (GetTranscript tid)
    \<and> (\<forall>m. pc \<le> m \<and> m < n \<longrightarrow> (\<exists>td. poll_result env m = Inr td \<and> \<not> terminal td))"
  using assms
proof (induction env tid pc td0 es rule: poll_loop.induct)
  case (1 env tid pc td0 es)
  show ?case
  proof (cases "pc < maxPolls")
    case False
    with "1.prems" show ?thesis
      by (subst (asm) poll_loop.simps) simp
  next
    case True
    show ?thesis
    proof (cases "poll_result env pc")
      case (Inl e)
      with True "1.prems" show ?thesis
        by (subst (asm) poll_loop.simps) simp
    next
      case (Inr td)
      show ?thesis
      proof (cases "terminal td")
        case True
        with \<open>pc < maxPolls\<close> Inr "1.prems"(1) have "n = pc \<and> tdo = Some td \<and> es' = es @ [GetTranscript tid]
            \<and> td_status td = JStr (js ''completed'')"
          by (subst (asm) poll_loop.simps) (auto simp: terminal_def split: if_splits)
        with Inr show ?thesis
          by auto
      next
        case False
        then have nt: "td_status td \<noteq> JStr (js ''completed'')" "td_status td \<noteq> JStr (js ''error'')"
          by (simp_all add: terminal_def)
        with \<open>pc < maxPolls\<close> Inr "1.prems"(1)
        have rec: "poll_loop env tid (pc + 1) (Some td) (es @ [GetTranscript tid]) = (Inr (n, tdo), es')"
          by (subst (asm) poll_loop.simps) simp
        from "1.IH" [OF \<open>pc < maxPolls\<close> Inr nt rec "1.prems"(2)]
        have ih: "pc + 1 \<le> n"
          "\<exists>td. tdo = Some td \<and> poll_result env n = Inr td \<and> td_status td = JStr (js ''completed'')"
          "es' = (es @ [GetTranscript tid]) @ replicate (Suc (n - (pc + 1))) (GetTranscript tid)"
          "\<forall>m. pc + 1 \<le> m \<and> m < n \<longrightarrow> (\<exists>td. poll_result env m = Inr td \<and> \<not> terminal td)"
          by blast+
        from ih(1) have "Suc (n - pc) = Suc (Suc (n - (pc + 1)))"
          by simp
        with ih(3) have es: "es' = es @ replicate (Suc (n - pc)) (GetTranscript tid)"
          by (simp only: replicate_Suc append_assoc append_Cons append_Nil)
        have "\<forall>m. pc \<le> m \<and> m < n \<longrightarrow> (\<exists>td. poll_result env m = Inr td \<and> \<not> terminal td)"
        proof (intro allI impI)
          fix m assume m: "pc \<le> m \<and> m < n"
          show "\<exists>td. poll_result env m = Inr td \<and> \<not> terminal td"
          proof (cases "m = pc")
            case True
            with Inr False show ?thesis by simp
          next
            case False
            with m ih(4) show ?thesis by simp
          qed
        qed
        with ih(1,2) es show ?thesis
          by simp
      qed
    qed
  qed
qed

lemma try_block_success:
  assumes "try_block env filePath = (Inr a, es)"
  shows "\<exists>n td. n < maxPolls \<and> poll_result env n = Inr td
    \<and> td_status td = JStr (js ''completed'') \<and> analyze td = Inr a
    \<and> length (filter is_poll es) = Suc n
    \<and> (\<forall>m. m < n \<longrightarrow> (\<exists>td'. poll_result env m = Inr td' \<and> \<not> terminal td'))"
proof (cases "files env filePath")
  case None
  with assms show ?thesis by (simp add: try_block_def)
next
  case (Some audio)
  show ?thesis
  proof (cases "upload_result env")
    case (Inl e)
    with Some assms show ?thesis by (simp add: try_block_def)
  next
    case up: (Inr uploadUrl)
    show ?thesis
    proof (cases "transcript_result env")
      case (Inl e)
      with Some up assms show ?thesis by (simp add: try_block_def)
    next
      case tr: (Inr tid)
      let ?es0 = "[ReadFileSync filePath, PostUpload audio, PostTranscript uploadUrl]"
      obtain r es1 where pl: "poll_loop env tid 0 None ?es0 = (r, es1)"
        by (cases "poll_loop env tid 0 None ?es0") blast
      show ?thesis
      proof (cases r)
        case (Inl e)
        with Some up tr pl assms show ?thesis by (simp add: try_block_def)
      next
        case (Inr ntd)
        obtain n tdo where ntd: "ntd = (n, tdo)"
          by (cases ntd) blast
        from Some up tr pl Inr ntd assms have n: "n < maxPolls"
          by (auto simp: try_block_def split: if_splits)
        from pl Inr ntd have "poll_loop env tid 0 None ?es0 = (Inr (n, tdo), es1)"
          by simp
        from poll_loop_left_early [OF this n] obtain td where td: "tdo = Some td"
          "poll_result env n = Inr td" "td_status td = JStr (js ''completed'')"
          and es1: "es1 = ?es0 @ replicate (Suc (n - 0)) (GetTranscript tid)"
          and before: "\<forall>m. 0 \<le> m \<and> m < n \<longrightarrow> (\<exists>td'. poll_result env m = Inr td' \<and> \<not> terminal td')"
          by blast
        from Some up tr pl Inr ntd n td(1) assms have "analyze td = Inr a" and "es = es1"
          by (simp_all add: try_block_def)
        with es1 have "length (filter is_poll es) = Suc n"
          by simp
        with n td \<open>analyze td = Inr a\<close> before show ?thesis
          by auto
      qed
    qed
  qed
qed

lemma cleanup_effects:
  "filter is_poll (fst (cleanup env filePath)) = []"
  "files env filePath = Some audio \<Longrightarrow> fst (cleanup env filePath) = [UnlinkSync filePath]"
  "files env filePath = Some audio \<Longrightarrow> unlink_error env = None \<Longrightarrow>
     snd (cleanup env filePath) filePath = None"
  by (auto simp: cleanup_def split: option.splits)

lemma handler_with_file:
  assumes "try_block env filePath = (result, es)"
  shows "response (analyze_handler env (Some filePath))
      = (case result of Inr a \<Rightarrow> success_response a | Inl error \<Rightarrow> error_response env error)"
    and "effects (analyze_handler env (Some filePath)) = es @ fst (cleanup env filePath)"
    and "files_after (analyze_handler env (Some filePath)) = snd (cleanup env filePath)"
  using assms by (simp_all add: analyze_handler_def split: prod.splits)

text \<open>
  C7. In every run of the handler, a success response (one that carries an analysis) is
  sent only if the last poll made answered with the status \<open>completed\<close>: that poll is
  one of the 20 of the budget, and no poll before it answered \<open>completed\<close> or
  \<open>error\<close> or failed.
\<close>

theorem success_only_completed:
  assumes "is_success (body (response (analyze_handler env reqFile)))"
  shows "\<exists>filePath n td. reqFile = Some filePath \<and> n < maxPolls
    \<and> poll_count (analyze_handler env reqFile) = Suc n
    \<and> poll_result env n = Inr td \<and> td_status td = JStr (js ''completed'')
    \<and> (\<forall>m. m < n \<longrightarrow> (\<exists>td'. poll_result env m = Inr td' \<and> \<not> terminal td'))"
proof (cases reqFile)
  case None
  with assms show ?thesis
    by (simp add: analyze_handler_def)
next
  case (Some filePath)
  obtain result es where tb: "try_block env filePath = (result, es)"
    by (cases "try_block env filePath") blast
  show ?thesis
  proof (cases result)
    case (Inl error)
    with assms Some handler_with_file(1) [OF tb] show ?thesis
      by (simp add: error_response_def)
  next
    case (Inr a)
    with tb have "try_block env filePath = (Inr a, es)"
      by simp
    from try_block_success [OF this] obtain n td where ntd: "n < maxPolls"
      "poll_result env n = Inr td" "td_status td = JStr (js ''completed'')"
      "length (filter is_poll es) = Suc n"
      "\<forall>m. m < n \<longrightarrow> (\<exists>td'. poll_result env m = Inr td' \<and> \<not> terminal td')"
      by blast
    from handler_with_file(2) [OF tb] ntd(4) have "poll_count (analyze_handler env (Some filePath)) = Suc n"
      by (simp add: poll_count_def cleanup_effects(1))
    with Some ntd show ?thesis
      by blast
  qed
qed

lemma analyze_result:
  assumes "td_text td = JStr s \<or> (\<not> truthy (td_text td) \<and> s = [])"
  shows "analyze td =
    Inr \<lparr>transcript = s, word_count = wordCount s,
         words_per_minute = wordsPerMinute s (td_audio_duration td),
         filler_word_count = fillerWordCount s,
         long_pause_count = longPauseCount (td_words td),
         pacing = pacingSuggestion_for (wordsPerMinute s (td_audio_duration td)),
         pauses = pauseSuggestion (longPauseCount (td_words td)) (fillerWordCount s)\<rparr>"
  using assms by (cases "s = []") (auto simp: analyze_def Let_def)

lemma sample_statuses:
  "td_status processing \<noteq> JStr (js ''completed'')" "td_status processing \<noteq> JStr (js ''error'')"
  "td_status completed = JStr (js ''completed'')" "\<not> terminal processing"
  by (simp_all add: processing_def completed_def terminal_def js_def)

lemma sample_try_block:
  "fst (try_block (sample_env 2 mode) sample_path) = analyze completed"
  "length (filter is_poll (snd (try_block (sample_env 2 mode) sample_path))) = 3"
  by (simp_all add: try_block_def sample_env_def poll_loop.simps maxPolls_def sample_statuses)

theorem success_only_completed_witness:
  "is_success (body (response (analyze_handler (sample_env 2 None) (Some sample_path))))
   \<and> poll_count (analyze_handler (sample_env 2 None) (Some sample_path)) = 3
   \<and> poll_result (sample_env 2 None) 2 = Inr completed
   \<and> td_status completed = JStr (js ''completed'')"
proof -
  obtain es where tb: "try_block (sample_env 2 None) sample_path = (analyze completed, es)"
    and es: "length (filter is_poll es) = 3"
    using sample_try_block [of None] by (cases "try_block (sample_env 2 None) sample_path") simp
  have "td_text completed = JStr (js ''um this is a test like really'')"
    by (simp add: completed_def)
  then obtain a where a: "analyze completed = Inr a"
    using analyze_result [of completed "js ''um this is a test like really''"] by simp
  from handler_with_file(1) [OF tb] a
  have ok: "is_success (body (response (analyze_handler (sample_env 2 None) (Some sample_path))))"
    by (simp add: success_response_def)
  from handler_with_file(2) [OF tb] es
  have "poll_count (analyze_handler (sample_env 2 None) (Some sample_path)) = 3"
    by (simp add: poll_count_def cleanup_effects(1))
  with ok success_only_completed [OF ok] show ?thesis
    by (simp add: sample_env_def sample_statuses)
qed




text \<open>
  C9, as the code has it. Every failure of the pipeline is answered with HTTP 500 and
  the user-facing message; the body carries \<open>details\<close>, equal to the raw error
  message, exactly when \<open>NODE_ENV\<close> is \<open>development\<close>. In every other mode,
  production and any other non-production mode alike, \<open>details\<close> is left out.
\<close>

theorem details_only_in_development:
  "(status_code (response (analyze_handler env reqFile)) = 500
      \<longleftrightarrow> (\<exists>filePath error. reqFile = Some filePath \<and> fst (try_block env filePath) = Inl error))
   \<and> (fst (try_block env filePath) = Inl error
      \<longrightarrow> body (response (analyze_handler env (Some filePath)))
            = ErrorBody (errorMessage error)
                (if NODE_ENV env = Some (js ''development'') then Some (message error) else None)
          \<and> (details (body (response (analyze_handler env (Some filePath)))) = Some (message error)
               \<longleftrightarrow> NODE_ENV env = Some (js ''development''))
          \<and> (details (body (response (analyze_handler env (Some filePath)))) = None
               \<longleftrightarrow> NODE_ENV env \<noteq> Some (js ''development'')))"
proof -
  have "status_code (response (analyze_handler env reqFile)) = 500
      \<longleftrightarrow> (\<exists>filePath error. reqFile = Some filePath \<and> fst (try_block env filePath) = Inl error)"
  proof (cases reqFile)
    case None
    then show ?thesis
      by (simp add: analyze_handler_def)
  next
    case (Some p)
    obtain result es where tb: "try_block env p = (result, es)"
      by (cases "try_block env p") blast
    from handler_with_file(1) [OF tb] Some tb show ?thesis
      by (cases result) (simp_all add: error_response_def success_response_def)
  qed
  moreover have "fst (try_block env filePath) = Inl error
      \<longrightarrow> body (response (analyze_handler env (Some filePath)))
            = ErrorBody (errorMessage error)
                (if NODE_ENV env = Some (js ''development'') then Some (message error) else None)"
  proof
    assume f: "fst (try_block env filePath) = Inl error"
    obtain es where tb: "try_block env filePath = (Inl error, es)"
      using f by (cases "try_block env filePath") simp
    from handler_with_file(1) [OF tb]
    show "body (response (analyze_handler env (Some filePath)))
            = ErrorBody (errorMessage error)
                (if NODE_ENV env = Some (js ''development'') then Some (message error) else None)"
      by (simp add: error_response_def)
  qed
  ultimately show ?thesis
    by simp
qed

lemma refusing_try_block:
  "fst (try_block (refusing_env mode) sample_path) = Inl refused"
  by (simp add: try_block_def refusing_env_def sample_env_def)

theorem details_only_in_development_witness:
  "fst (try_block (refusing_env (Some (js ''development''))) sample_path) = Inl refused
   \<and> status_code (response (analyze_handler (refusing_env (Some (js ''development'')))
        (Some sample_path))) = 500
   \<and> details (body (response (analyze_handler (refusing_env (Some (js ''development'')))
        (Some sample_path)))) = Some (js ''Request failed with status code 401'')
   \<and> details (body (response (analyze_handler (refusing_env (Some (js ''production'')))
        (Some sample_path)))) = None"
  using details_only_in_development [of "refusing_env (Some (js ''development''))"
      "Some sample_path" sample_path refused]
    details_only_in_development [of "refusing_env (Some (js ''production''))"
      "Some sample_path" sample_path refused]
    refusing_try_block
  by (auto simp: refusing_env_def sample_env_def refused_def js_def)

text \<open>
  C9, as the specification has it, fails: with \<open>NODE_ENV\<close> set to \<open>test\<close>, or not set
  at all, the process is not in production mode, the pipeline fails with HTTP 500, and
  the body carries no \<open>details\<close>.
\<close>

theorem details_non_production_counterexample:
  "status_code (response (analyze_handler (refusing_env (Some (js ''test''))) (Some sample_path))) = 500
   \<and> \<not> production_mode (refusing_env (Some (js ''test'')))
   \<and> details (body (response (analyze_handler (refusing_env (Some (js ''test'')))
        (Some sample_path)))) = None
   \<and> status_code (response (analyze_handler (refusing_env None) (Some sample_path))) = 500
   \<and> \<not> production_mode (refusing_env None)
   \<and> details (body (response (analyze_handler (refusing_env None) (Some sample_path)))) = None"
proof -
  have "\<And>mode. \<exists>es. try_block (refusing_env mode) sample_path = (Inl refused, es)"
    using refusing_try_block by (metis prod.collapse)
  then obtain es1 es2 where
    "try_block (refusing_env (Some (js ''test''))) sample_path = (Inl refused, es1)"
    "try_block (refusing_env None) sample_path = (Inl refused, es2)"
    by metis
  from handler_with_file(1) [OF this(1)] handler_with_file(1) [OF this(2)] show ?thesis
    by (simp add: error_response_def production_mode_def refusing_env_def sample_env_def js_def)
qed

subsection \<open>Missing fields\<close>






end
